theory Spec2Isabelle
  imports Main "HOL-Library.Multiset"
begin

section \<open>The data model of \<open>heap.js\<close>\<close>

text \<open>
  The heap of \<open>src/data_structures/heap.js\<close> is a JavaScript class with three fields:
  \<open>_storage\<close> (an array), \<open>size\<close> and \<open>_count\<close> (numbers). The array holds
  \<^emph>\<open>references\<close> to record objects \<open>{priority, element}\<close>: \<open>_swap\<close> exchanges
  references, \<open>insert\<close> assigns to the fields of the object a slot refers to. The model
  therefore keeps an object memory \<open>mem\<close> beside the array, so that two slots that refer
  to one object are visible as such.

  A field of a record holds a value or JavaScript's \<open>undefined\<close>; \<open>None\<close> stands for
  \<open>undefined\<close>. Priorities are documented as numbers and are integers here (no NaN,
  no rounding); the payload type \<open>'e\<close> is arbitrary.
\<close>

type_synonym addr = nat

record 'e heap_record =
  priority :: "int option"
  element :: "'e option"

text \<open>What an array slot can hold: a hole or \<open>undefined\<close>, \<open>null\<close> (the sentinel the
  empty constructor puts at index 0), or a reference to a record object.\<close>

datatype slot = Undefined | Null | Obj addr

record 'e MaxHeap =
  storage :: "slot list"
  size_of :: int
  count_of :: int
  mem :: "addr \<Rightarrow> 'e heap_record"

text \<open>
  Two things can be thrown: the \<open>Error('Heap is full!')\<close> of \<open>insert\<close>, and the
  \<open>TypeError\<close> the engine raises when a field of \<open>null\<close> or \<open>undefined\<close> is read or
  written. A thrown error carries the state the heap object is left in.
\<close>

datatype error = HeapFull | TypeError

type_synonym ('e, 'a) result = "(error \<times> 'e MaxHeap) + 'a"

subsection \<open>JavaScript arrays and comparisons\<close>

text \<open>Reading an index outside the array yields \<open>undefined\<close>; it does not fail.\<close>

definition js_get :: "slot list \<Rightarrow> int \<Rightarrow> slot" where
  "js_get xs i = (if 0 \<le> i \<and> i < int (length xs) then xs ! nat i else Undefined)"

text \<open>
  Writing at an index at or beyond the length extends the array, leaving holes in
  between. A negative key is an ordinary property of the array object: the elements and
  the length stay as they are. (The class only ever writes such a key when \<open>_count\<close> is
  negative, and then the value written is \<open>undefined\<close>, which is also what \<open>js_get\<close>
  reads back there.)
\<close>

definition js_set :: "slot list \<Rightarrow> int \<Rightarrow> slot \<Rightarrow> slot list" where
  "js_set xs i v =
     (if i < 0 then xs
      else if i < int (length xs) then xs[nat i := v]
      else xs @ replicate (nat i - length xs) Undefined @ [v])"

text \<open>\<open>a < b\<close> on two field values: with \<open>undefined\<close> on either side the operands
  convert to NaN and the comparison is false.\<close>

fun js_less :: "int option \<Rightarrow> int option \<Rightarrow> bool" where
  "js_less (Some a) (Some b) = (a < b)"
| "js_less _ _ = False"

text \<open>\<open>a >= b\<close>, the relation of the heap property, under the same rule.\<close>

fun js_ge :: "int option \<Rightarrow> int option \<Rightarrow> bool" where
  "js_ge (Some a) (Some b) = (b \<le> a)"
| "js_ge _ _ = False"

text \<open>\<open>this._storage[i]\<close> followed by a field access: the slot must hold an object.\<close>

definition deref :: "'e MaxHeap \<Rightarrow> int \<Rightarrow> ('e, addr) result" where
  "deref h i = (case js_get (storage h) i of Obj a \<Rightarrow> Inr a | _ \<Rightarrow> Inl (TypeError, h))"

text \<open>\<open>this._storage[i].priority < this._storage[j].priority\<close>\<close>

definition less_at :: "'e MaxHeap \<Rightarrow> int \<Rightarrow> int \<Rightarrow> ('e, bool) result" where
  "less_at h i j =
     (case deref h i of Inl e \<Rightarrow> Inl e
      | Inr a \<Rightarrow> (case deref h j of Inl e \<Rightarrow> Inl e
          | Inr b \<Rightarrow> Inr (js_less (priority (mem h a)) (priority (mem h b)))))"

section \<open>The methods\<close>

definition DEFAULT_SIZE :: int where
  "DEFAULT_SIZE = 1023"

definition left :: "int \<Rightarrow> int" where
  "left i = 2 * i"

definition right :: "int \<Rightarrow> int" where
  "right i = 2 * i + 1"

text \<open>\<open>Math.floor(i / 2)\<close>; \<open>div\<close> on \<open>int\<close> rounds down.\<close>

definition parent :: "int \<Rightarrow> int" where
  "parent i = i div 2"

definition swap_h :: "'e MaxHeap \<Rightarrow> int \<Rightarrow> int \<Rightarrow> 'e MaxHeap" where
  "swap_h h i j =
     (let temp = js_get (storage h) i;
          s1 = js_set (storage h) i (js_get (storage h) j);
          s2 = js_set s1 j temp
      in h\<lparr>storage := s2\<rparr>)"

definition inSizeBounds :: "'e MaxHeap \<Rightarrow> int \<Rightarrow> bool" where
  "inSizeBounds h i = (i > 0 \<and> i \<le> size_of h)"

definition inCountBounds :: "'e MaxHeap \<Rightarrow> int \<Rightarrow> bool" where
  "inCountBounds h i = (i > 0 \<and> i \<le> count_of h)"

definition isHeapFull :: "'e MaxHeap \<Rightarrow> bool" where
  "isHeapFull h = (count_of h = size_of h)"

text \<open>
  \<open>_float\<close>: the loop condition reads \<open>storage[i].priority > storage[p].priority\<close>,
  which is \<open>less_at\<close> with the operands exchanged.
\<close>

function float :: "'e MaxHeap \<Rightarrow> int \<Rightarrow> ('e, 'e MaxHeap) result" where
  "float h i =
     (let p = parent i in
      if inSizeBounds h p then
        (case less_at h p i of
           Inl e \<Rightarrow> Inl e
         | Inr b \<Rightarrow> if b then float (swap_h h i p) p else Inr h)
      else Inr h)"
  by pat_completeness auto
termination
  by (relation "measure (\<lambda>(h, i). nat i)")
     (auto simp: parent_def inSizeBounds_def)

text \<open>
  One of the two guarded comparisons of \<open>_sink\<close>:
  \<open>if (this._inCountBounds(c) && storage[max].priority < storage[c].priority) max = c\<close>.
  The result is the new value of \<open>max\<close>.
\<close>

definition sink_pick :: "'e MaxHeap \<Rightarrow> int \<Rightarrow> int \<Rightarrow> ('e, int) result" where
  "sink_pick h mx c =
     (if inCountBounds h c then
        (case less_at h mx c of Inl e \<Rightarrow> Inl e | Inr b \<Rightarrow> Inr (if b then c else mx))
      else Inr mx)"

text \<open>The value of \<open>max\<close> after both comparisons of one iteration of \<open>_sink\<close>.\<close>

definition sink_max :: "'e MaxHeap \<Rightarrow> int \<Rightarrow> ('e, int) result" where
  "sink_max h i =
     (case sink_pick h i (left i) of Inl e \<Rightarrow> Inl e
      | Inr m1 \<Rightarrow> sink_pick h m1 (right i))"

function sink :: "'e MaxHeap \<Rightarrow> int \<Rightarrow> ('e, 'e MaxHeap) result" where
  "sink h i =
     (case sink_max h i of
        Inl e \<Rightarrow> Inl e
      | Inr mx \<Rightarrow> if mx = i then Inr h else sink (swap_h h i mx) mx)"
  by pat_completeness auto
termination
proof (relation "measure (\<lambda>(h, i). nat (count_of h - i))")
  show "wf (measure (\<lambda>(h :: 'e MaxHeap, i). nat (count_of h - i)))" by simp
next
  fix h :: "'e MaxHeap" and i mx
  assume mx: "sink_max h i = Inr mx" "mx \<noteq> i"
  then obtain m1 where a: "sink_pick h i (left i) = Inr m1"
    and b: "sink_pick h m1 (right i) = Inr mx"
    by (auto simp: sink_max_def split: sum.splits)
  from a have "m1 = i \<or> (m1 = left i \<and> 0 < left i \<and> left i \<le> count_of h)"
    by (auto simp: sink_pick_def inCountBounds_def split: if_splits sum.splits)
  moreover from b have "mx = m1 \<or> (mx = right i \<and> 0 < right i \<and> right i \<le> count_of h)"
    by (auto simp: sink_pick_def inCountBounds_def split: if_splits sum.splits)
  ultimately have "i < mx \<and> mx \<le> count_of h"
    using mx(2) by (auto simp: left_def right_def)
  then show "((swap_h h i mx, mx), (h, i)) \<in> measure (\<lambda>(h, i). nat (count_of h - i))"
    by (simp add: swap_h_def Let_def)
qed

text \<open>\<open>_buildheap\<close>: \<open>for (let i = midpoint; i >= 1; i--) this._sink(i)\<close>.\<close>

function buildheap_loop :: "'e MaxHeap \<Rightarrow> int \<Rightarrow> ('e, 'e MaxHeap) result" where
  "buildheap_loop h i =
     (if i \<ge> 1 then
        (case sink h i of Inl e \<Rightarrow> Inl e | Inr h' \<Rightarrow> buildheap_loop h' (i - 1))
      else Inr h)"
  by pat_completeness auto
termination
  by (relation "measure (\<lambda>(h, i). nat i)") auto

definition buildheap :: "'e MaxHeap \<Rightarrow> ('e, 'e MaxHeap) result" where
  "buildheap h = (let midpoint = count_of h div 2 in buildheap_loop h midpoint)"

text \<open>
  The constructor without \<open>fromArray\<close>: \<open>[null]\<close> followed by one fresh record
  \<open>{priority: undefined, element: undefined}\<close> for each \<open>i\<close> from 1 to \<open>size\<close>. The fresh
  objects get the addresses \<open>1, \<dots>, size\<close>; nothing else refers to them.
\<close>

definition new_empty :: "int \<Rightarrow> 'e MaxHeap" where
  "new_empty sz =
     \<lparr>storage = Null # map Obj [1..<Suc (nat sz)],
      size_of = sz,
      count_of = 0,
      mem = (\<lambda>_. \<lparr>priority = None, element = None\<rparr>)\<rparr>"

text \<open>
  The constructor with \<open>fromArray\<close>: the caller's array becomes \<open>_storage\<close> (the same
  array object: the model hands its contents on), with the object memory \<open>m\<close> its
  references point into.
\<close>

definition new_fromArray ::
  "(addr \<Rightarrow> 'e heap_record) \<Rightarrow> slot list \<Rightarrow> ('e, 'e MaxHeap) result" where
  "new_fromArray m fromArray =
     buildheap \<lparr>storage = fromArray,
                size_of = int (length fromArray) - 1,
                count_of = int (length fromArray) - 1,
                mem = m\<rparr>"

text \<open>\<open>constructor({ size = DEFAULT_SIZE, fromArray } = {})\<close>; an array is truthy
  whatever its length.\<close>

definition constructor ::
  "int option \<Rightarrow> slot list option \<Rightarrow> (addr \<Rightarrow> 'e heap_record) \<Rightarrow> ('e, 'e MaxHeap) result"
where
  "constructor sz fromArray m =
     (case fromArray of
        Some arr \<Rightarrow> new_fromArray m arr
      | None \<Rightarrow> Inr (new_empty (case sz of None \<Rightarrow> DEFAULT_SIZE | Some s \<Rightarrow> s)))"

text \<open>
  \<open>insert\<close>: both field assignments go to the object that slot \<open>i\<close> refers to; every
  other slot that refers to the same object sees them too.
\<close>

definition insert_op :: "'e MaxHeap \<Rightarrow> int \<Rightarrow> 'e option \<Rightarrow> ('e, 'e MaxHeap) result" where
  "insert_op h prio el =
     (let i = count_of h + 1 in
      if \<not> inSizeBounds h i then Inl (HeapFull, h)
      else
        (case deref h i of
           Inl e \<Rightarrow> Inl e
         | Inr a \<Rightarrow>
             (let h1 = h\<lparr>mem := (mem h)(a := (mem h a)\<lparr>priority := Some prio\<rparr>)\<rparr>;
                  h2 = h1\<lparr>mem := (mem h1)(a := (mem h1 a)\<lparr>element := el\<rparr>)\<rparr>
              in case float h2 i of
                   Inl e \<Rightarrow> Inl e
                 | Inr h3 \<Rightarrow> Inr (h3\<lparr>count_of := count_of h3 + 1\<rparr>))))"

text \<open>\<open>removeMax\<close>: the bare \<open>return;\<close> of the empty case yields \<open>undefined\<close>.\<close>

definition removeMax :: "'e MaxHeap \<Rightarrow> ('e, 'e option \<times> 'e MaxHeap) result" where
  "removeMax h =
     (if count_of h = 0 then Inr (None, h)
      else
        (let root = 1;
             last = count_of h;
             h1 = swap_h h root last;
             h2 = h1\<lparr>count_of := count_of h1 - 1\<rparr>
         in case sink h2 root of
              Inl e \<Rightarrow> Inl e
            | Inr h3 \<Rightarrow>
                (case deref h3 last of
                   Inl e \<Rightarrow> Inl e
                 | Inr a \<Rightarrow> Inr (element (mem h3 a), h3))))"

definition count_op :: "'e MaxHeap \<Rightarrow> int \<times> 'e MaxHeap" where
  "count_op h = (count_of h, h)"

text \<open>\<open>sort\<close>: \<open>for (let i = 0; i < count; i += 1) this.removeMax()\<close>, with \<open>count\<close>
  read once before the loop; the result is the storage array.\<close>

function sort_loop :: "'e MaxHeap \<Rightarrow> int \<Rightarrow> int \<Rightarrow> ('e, 'e MaxHeap) result" where
  "sort_loop h i c =
     (if i < c then
        (case removeMax h of Inl e \<Rightarrow> Inl e | Inr (v, h') \<Rightarrow> sort_loop h' (i + 1) c)
      else Inr h)"
  by pat_completeness auto
termination
  by (relation "measure (\<lambda>(h, i, c). nat (c - i))") auto

definition sort_op :: "'e MaxHeap \<Rightarrow> ('e, slot list \<times> 'e MaxHeap) result" where
  "sort_op h =
     (let c = count_of h in
      case sort_loop h 0 c of Inl e \<Rightarrow> Inl e | Inr h' \<Rightarrow> Inr (storage h', h'))"

text \<open>
  The static \<open>heapsort(array)\<close> returns nothing; what the caller has afterwards is the
  array it passed and the objects in it. The model returns the heap object the call
  built and drained: its \<open>storage\<close> is the caller's array, its \<open>mem\<close> the objects.
\<close>

definition heapsort ::
  "(addr \<Rightarrow> 'e heap_record) \<Rightarrow> slot list \<Rightarrow> ('e, 'e MaxHeap) result" where
  "heapsort m array =
     (case constructor None (Some array) m of
        Inl e \<Rightarrow> Inl e
      | Inr heap \<Rightarrow> (case sort_op heap of Inl e \<Rightarrow> Inl e | Inr (s, heap') \<Rightarrow> Inr heap'))"

section \<open>What the specification talks about\<close>

fun is_obj :: "slot \<Rightarrow> bool" where
  "is_obj (Obj a) = True"
| "is_obj _ = False"

text \<open>\<open>storage[i].priority\<close> as a value: \<open>None\<close> where the slot holds no record or
  the record's priority is \<open>undefined\<close>.\<close>

fun prio_of :: "(addr \<Rightarrow> 'e heap_record) \<Rightarrow> slot \<Rightarrow> int option" where
  "prio_of m (Obj a) = priority (m a)"
| "prio_of m _ = None"

definition key :: "'e MaxHeap \<Rightarrow> int \<Rightarrow> int option" where
  "key h i = prio_of (mem h) (js_get (storage h) i)"

text \<open>The references held by the slots \<open>1..n\<close>, and their priorities.\<close>

definition slots :: "'e MaxHeap \<Rightarrow> int \<Rightarrow> slot list" where
  "slots h n = map (js_get (storage h)) [1..n]"

definition prios :: "'e MaxHeap \<Rightarrow> int \<Rightarrow> int option list" where
  "prios h n = map (key h) [1..n]"

text \<open>
  The shape both constructors produce and every method keeps: \<open>size + 1\<close> slots, of
  which \<open>1..size\<close> refer to record objects, and \<open>0 \<le> count \<le> size\<close>.
\<close>

definition objs_upto :: "'e MaxHeap \<Rightarrow> int \<Rightarrow> bool" where
  "objs_upto h n \<longleftrightarrow> (\<forall>i\<in>{1..n}. is_obj (js_get (storage h) i))"

definition layout :: "'e MaxHeap \<Rightarrow> bool" where
  "layout h \<longleftrightarrow>
     int (length (storage h)) = size_of h + 1 \<and> 0 \<le> count_of h \<and> count_of h \<le> size_of h \<and>
     objs_upto h (size_of h)"

text \<open>Every live record has a number as its priority.\<close>

definition numeric :: "'e MaxHeap \<Rightarrow> bool" where
  "numeric h \<longleftrightarrow> (\<forall>i\<in>{1..count_of h}. key h i \<noteq> None)"

text \<open>The max-heap invariant, as the specification words it.\<close>

definition heap_inv :: "'e MaxHeap \<Rightarrow> bool" where
  "heap_inv h \<longleftrightarrow>
     (\<forall>i\<in>{1..count_of h}.
        (left i \<le> count_of h \<longrightarrow> js_ge (key h i) (key h (left i))) \<and>
        (right i \<le> count_of h \<longrightarrow> js_ge (key h i) (key h (right i))))"

text \<open>
  The same invariant read along the edges of the tree: \<open>edge_ok h c\<close> compares the
  record at \<open>c\<close> with the one at its parent; \<open>pheap h k n\<close> asks this of every index
  \<open>c \<le> n\<close> whose parent is at \<open>k\<close> or below it in the array.
\<close>

definition edge_ok :: "'e MaxHeap \<Rightarrow> int \<Rightarrow> bool" where
  "edge_ok h c \<longleftrightarrow> js_ge (key h (parent c)) (key h c)"

definition pheap :: "'e MaxHeap \<Rightarrow> int \<Rightarrow> int \<Rightarrow> bool" where
  "pheap h k n \<longleftrightarrow> (\<forall>c\<in>{2..n}. k \<le> parent c \<longrightarrow> edge_ok h c)"

text \<open>
  What \<open>sort\<close> builds up behind the live region: every slot of \<open>c+1..n\<close> holds a
  priority at least as large as that of every slot before it.
\<close>

definition tail_sorted :: "'e MaxHeap \<Rightarrow> int \<Rightarrow> int \<Rightarrow> bool" where
  "tail_sorted h c n \<longleftrightarrow>
     (\<forall>a\<in>{1..n}. \<forall>b\<in>{c + 1..n}. a \<le> b \<longrightarrow> js_ge (key h b) (key h a))"

text \<open>No record object sits in two of the slots \<open>1..size\<close>.\<close>

definition unaliased :: "'e MaxHeap \<Rightarrow> bool" where
  "unaliased h \<longleftrightarrow> distinct (slots h (size_of h))"

text \<open>What a caller's array must be for \<open>fromArray\<close>: a slot 0 and, after it, references
  to records whose priorities are numbers.\<close>

definition array_ok :: "(addr \<Rightarrow> 'e heap_record) \<Rightarrow> slot list \<Rightarrow> bool" where
  "array_ok m arr \<longleftrightarrow>
     arr \<noteq> [] \<and> (\<forall>s\<in>set (tl arr). is_obj s \<and> prio_of m s \<noteq> None)"

text \<open>A caller that inserts a list of (priority, element) pairs, stopping at the first
  error.\<close>

fun inserts :: "'e MaxHeap \<Rightarrow> (int \<times> 'e option) list \<Rightarrow> ('e, 'e MaxHeap) result" where
  "inserts h [] = Inr h"
| "inserts h ((p, e) # ps) =
     (case insert_op h p e of Inl err \<Rightarrow> Inl err | Inr h' \<Rightarrow> inserts h' ps)"

text \<open>
  A caller that calls \<open>removeMax\<close> \<open>k\<close> times and notes, after each call, the record
  the call extracted: the one now at the index that was \<open>count\<close> before the call, whose
  \<open>element\<close> the call returned. The result lists (priority, returned value) in the order
  of the calls.
\<close>

fun drain ::
  "nat \<Rightarrow> 'e MaxHeap \<Rightarrow> ('e, (int option \<times> 'e option) list \<times> 'e MaxHeap) result" where
  "drain 0 h = Inr ([], h)"
| "drain (Suc k) h =
     (case removeMax h of
        Inl err \<Rightarrow> Inl err
      | Inr (v, h') \<Rightarrow>
          (case drain k h' of
             Inl err \<Rightarrow> Inl err
           | Inr (out, h'') \<Rightarrow> Inr ((key h' (count_of h), v) # out, h'')))"

text \<open>\<open>removeMax\<close> called \<open>k\<close> times in a row, results discarded.\<close>

fun removeMax_times :: "nat \<Rightarrow> 'e MaxHeap \<Rightarrow> ('e, 'e MaxHeap) result" where
  "removeMax_times 0 h = Inr h"
| "removeMax_times (Suc k) h =
     (case removeMax h of Inl err \<Rightarrow> Inl err | Inr (v, h') \<Rightarrow> removeMax_times k h')"

text \<open>
  A caller's sequence of public calls on one heap object. \<open>call_op\<close> is the state of
  the object after a call, whether the call returned or threw.
\<close>

datatype 'e call = Insert int "'e option" | RemoveMax | Count | Sort

fun call_op :: "'e MaxHeap \<Rightarrow> 'e call \<Rightarrow> 'e MaxHeap" where
  "call_op h (Insert p e) = (case insert_op h p e of Inl (err, h') \<Rightarrow> h' | Inr h' \<Rightarrow> h')"
| "call_op h RemoveMax = (case removeMax h of Inl (err, h') \<Rightarrow> h' | Inr (v, h') \<Rightarrow> h')"
| "call_op h Count = snd (count_op h)"
| "call_op h Sort = (case sort_op h of Inl (err, h') \<Rightarrow> h' | Inr (s, h') \<Rightarrow> h')"

definition calls :: "'e MaxHeap \<Rightarrow> 'e call list \<Rightarrow> 'e MaxHeap" where
  "calls h cs = foldl call_op h cs"

text \<open>
  Concrete data for the examples. In \<open>ex_mem\<close> the record at address \<open>a\<close> has priority
  \<open>a\<close> and carries \<open>a\<close> as its element, so an array of distinct addresses is an array
  of distinct priorities. \<open>tie_heap\<close> is a three-record heap whose root (priority 1) has
  two children of equal priority 5, held by two different objects.
\<close>

definition ex_mem :: "addr \<Rightarrow> nat heap_record" where
  "ex_mem = (\<lambda>a. \<lparr>priority = Some (int a), element = Some a\<rparr>)"

definition tie_heap :: "nat MaxHeap" where
  "tie_heap =
     \<lparr>storage = [Null, Obj 1, Obj 2, Obj 3], size_of = 3, count_of = 3,
      mem = (\<lambda>a. \<lparr>priority = Some (if a = 1 then 1 else 5), element = Some a\<rparr>)\<rparr>"

text \<open>\<open>sink(i)\<close> called for each \<open>i\<close> of a list, in order.\<close>

fun sink_each :: "'e MaxHeap \<Rightarrow> int list \<Rightarrow> ('e, 'e MaxHeap) result" where
  "sink_each h [] = Inr h"
| "sink_each h (i # is) =
     (case sink h i of Inl err \<Rightarrow> Inl err | Inr h' \<Rightarrow> sink_each h' is)"

section \<open>Proofs\<close>

text \<open>The loops are unfolded one iteration at a time, by hand.\<close>

declare float.simps [simp del] sink.simps [simp del]
  buildheap_loop.simps [simp del] sort_loop.simps [simp del]

subsection \<open>Arrays\<close>

lemma js_get_js_set: 
  assumes "0 \<le> i"
  shows "js_get (js_set xs i v) j = (if j = i then v else js_get xs j)"
proof (cases "i < int (length xs)")
  case True
  with assms show ?thesis
    by (simp add: js_get_def js_set_def nth_list_update nat_eq_iff)
next
  case False
  let ?ys = "xs @ replicate (nat i - length xs) Undefined @ [v]"
  have len: "int (length ?ys) = i + 1" using False assms by simp
  have set: "js_set xs i v = ?ys" using False assms by (simp add: js_set_def)
  show ?thesis
  proof (cases "0 \<le> j \<and> j \<le> i")
    case out: False
    then show ?thesis using False assms unfolding set js_get_def len by auto
  next
    case inr: True
    consider "j < int (length xs)" | "int (length xs) \<le> j" "j < i" | "j = i" using inr by linarith
    then show ?thesis
    proof cases
      case 1
      then have "nat j < length xs" using inr by linarith
      then have "?ys ! nat j = xs ! nat j" by (simp add: nth_append)
      then show ?thesis using 1 inr False unfolding set js_get_def len by auto
    next
      case 2
      then have a: "\<not> nat j < length xs" "nat j - length xs < nat i - length xs" by linarith+
      then have "?ys ! nat j = Undefined" by (simp add: nth_append)
      then show ?thesis using 2 inr unfolding set js_get_def len by auto
    next
      case 3
      have "nat i = length (xs @ replicate (nat i - length xs) Undefined)" using False assms by simp
      then have "?ys ! nat i = v" by (metis append_assoc nth_append_length)
      then show ?thesis using 3 inr unfolding set js_get_def len by auto
    qed
  qed
qed

lemma length_js_set: "0 \<le> i \<Longrightarrow> i < int (length xs) \<Longrightarrow> length (js_set xs i v) = length xs"
  by (simp add: js_set_def)

lemma is_obj_in_range: "is_obj (js_get xs i) \<Longrightarrow> 0 \<le> i \<and> i < int (length xs)"
  by (cases "0 \<le> i \<and> i < int (length xs)") (auto simp: js_get_def)

lemma is_obj_iff: "is_obj s \<longleftrightarrow> (\<exists>a. s = Obj a)"
  by (cases s) auto

subsection \<open>Swapping two slots\<close>

lemma get_swap_h:
  "0 \<le> i \<Longrightarrow> 0 \<le> j \<Longrightarrow>
   js_get (storage (swap_h h i j)) k =
     (if k = j then js_get (storage h) i else if k = i then js_get (storage h) j
      else js_get (storage h) k)"
  by (simp add: swap_h_def Let_def js_get_js_set)

lemma length_swap_h:
  "0 \<le> i \<Longrightarrow> i < int (length (storage h)) \<Longrightarrow> 0 \<le> j \<Longrightarrow> j < int (length (storage h)) \<Longrightarrow>
   length (storage (swap_h h i j)) = length (storage h)"
  by (simp add: swap_h_def Let_def length_js_set)

lemma swap_h_frame [simp]:
  "mem (swap_h h i j) = mem h" "size_of (swap_h h i j) = size_of h"
  "count_of (swap_h h i j) = count_of h"
  by (simp_all add: swap_h_def Let_def)

lemma key_swap_h:
  "0 \<le> i \<Longrightarrow> 0 \<le> j \<Longrightarrow>
   key (swap_h h i j) k = (if k = j then key h i else if k = i then key h j else key h k)"
  by (simp add: key_def get_swap_h)

lemma mset_upto: "mset [a..b] = mset_set {a..b}"
  by (metis distinct_upto mset_set_set set_upto)

lemma slots_image: "mset (slots h n) = image_mset (js_get (storage h)) (mset_set {1..n})"
  unfolding slots_def mset_map mset_upto ..

lemma slots_swap_h:
  assumes "1 \<le> a" "a \<le> n" "1 \<le> b" "b \<le> n"
  shows "mset (slots (swap_h h a b) n) = mset (slots h n)"
proof -
  let ?t = "\<lambda>k. if k = b then a else if k = a then b else k"
  have eq: "js_get (storage (swap_h h a b)) = js_get (storage h) \<circ> ?t"
    using assms by (auto simp: get_swap_h fun_eq_iff)
  have inj: "inj_on ?t {1..n}" by (auto simp: inj_on_def)
  have img: "?t ` {1..n} = {1..n}" using assms by (auto simp: image_iff) 
  have "mset (slots (swap_h h a b) n) = image_mset (js_get (storage h)) (image_mset ?t (mset_set {1..n}))"
    unfolding slots_image eq by (simp add: multiset.map_comp)
  also have "image_mset ?t (mset_set {1..n}) = mset_set {1..n}"
    using image_mset_mset_set[OF inj] img by simp
  finally show ?thesis by (simp add: slots_image)
qed

lemma set_slots: "set (slots h n) = js_get (storage h) ` {1..n}"
  by (simp add: slots_def)

lemma prios_slots: "prios h n = map (prio_of (mem h)) (slots h n)"
  by (simp add: prios_def slots_def key_def)

lemma objs_upto_slots: "objs_upto h n \<longleftrightarrow> (\<forall>s\<in>set (slots h n). is_obj s)"
  by (auto simp: objs_upto_def set_slots)

lemma numeric_slots: "numeric h \<longleftrightarrow> (\<forall>s\<in>set (slots h (count_of h)). prio_of (mem h) s \<noteq> None)"
  by (auto simp: numeric_def set_slots key_def)

lemma objs_uptoD: "objs_upto h n \<Longrightarrow> 1 \<le> i \<Longrightarrow> i \<le> n \<Longrightarrow> \<exists>a. js_get (storage h) i = Obj a"
  by (auto simp: objs_upto_def is_obj_iff)

lemma objs_upto_mono: "objs_upto h n \<Longrightarrow> m \<le> n \<Longrightarrow> objs_upto h m"
  by (auto simp: objs_upto_def)

lemma objs_upto_length: "objs_upto h n \<Longrightarrow> n < int (length (storage h)) \<or> n < 1"
  using is_obj_in_range[of "storage h" n] by (cases "1 \<le> n") (auto simp: objs_upto_def)

subsection \<open>Reading priorities\<close>

lemma deref_Obj: "js_get (storage h) i = Obj a \<Longrightarrow> deref h i = Inr a"
  by (simp add: deref_def)

lemma less_at_key:
  assumes "is_obj (js_get (storage h) i)" "is_obj (js_get (storage h) j)"
  shows "less_at h i j = Inr (js_less (key h i) (key h j))"
  using assms by (auto simp: less_at_def deref_def key_def is_obj_iff)

lemma js_less_trans: "js_less a b \<Longrightarrow> js_less b c \<Longrightarrow> js_less a c"
  by (cases a; cases b; cases c) auto

lemma js_less_asym: "js_less a b \<Longrightarrow> \<not> js_less b a"
  by (cases a; cases b) auto

lemma not_js_less: "a \<noteq> None \<Longrightarrow> b \<noteq> None \<Longrightarrow> \<not> js_less a b \<longleftrightarrow> js_ge a b"
  by (cases a; cases b) auto

lemma js_less_ge: "js_less a b \<Longrightarrow> js_ge b a"
  by (cases a; cases b) auto

lemma js_ge_trans: "js_ge a b \<Longrightarrow> js_ge b c \<Longrightarrow> js_ge a c"
  by (cases a; cases b; cases c) auto

lemma js_ge_refl: "a \<noteq> None \<Longrightarrow> js_ge a a"
  by (cases a) auto

lemma js_ge_defined: "js_ge a b \<Longrightarrow> a \<noteq> None \<and> b \<noteq> None"
  by (cases a; cases b) auto

subsection \<open>One iteration of sink\<close>

lemma sink_pick_live:
  assumes "objs_upto h (count_of h)" "1 \<le> mx" "mx \<le> count_of h \<or> c \<le> 0 \<or> count_of h < c"
  shows "sink_pick h mx c =
           Inr (if 0 < c \<and> c \<le> count_of h \<and> js_less (key h mx) (key h c) then c else mx)"
proof (cases "0 < c \<and> c \<le> count_of h")
  case True
  then have "is_obj (js_get (storage h) c)" "is_obj (js_get (storage h) mx)"
    using assms by (auto simp: objs_upto_def)
  then show ?thesis using True by (simp add: sink_pick_def inCountBounds_def less_at_key)
next
  case False
  then show ?thesis by (auto simp: sink_pick_def inCountBounds_def)
qed

lemma sink_max_live:
  assumes "objs_upto h (count_of h)" "1 \<le> i"
  shows "\<exists>mx. sink_max h i = Inr mx \<and>
           (mx = i \<or> ((mx = left i \<or> mx = right i) \<and> mx \<le> count_of h \<and>
                       js_less (key h i) (key h mx))) \<and>
           (left i \<le> count_of h \<longrightarrow> \<not> js_less (key h mx) (key h (left i))) \<and>
           (right i \<le> count_of h \<longrightarrow> \<not> js_less (key h mx) (key h (right i)))"
proof -
  let ?n = "count_of h" let ?l = "left i" let ?r = "right i"
  have lr: "0 < ?l" "0 < ?r" "?l < ?r" "i < ?l" using assms(2) by (auto simp: left_def right_def)
  define m1 where "m1 = (if ?l \<le> ?n \<and> js_less (key h i) (key h ?l) then ?l else i)"
  define mx where "mx = (if ?r \<le> ?n \<and> js_less (key h m1) (key h ?r) then ?r else m1)"
  have "i \<le> ?n \<or> ?l \<le> 0 \<or> ?n < ?l" using lr by linarith
  from sink_pick_live[OF assms(1) assms(2) this]
  have p1: "sink_pick h i ?l = Inr m1"
    using lr by (auto simp: m1_def)
  have m1: "1 \<le> m1" "m1 \<le> ?n \<or> ?n < ?r" using assms(2) lr by (auto simp: m1_def)
  have "m1 \<le> ?n \<or> ?r \<le> 0 \<or> ?n < ?r" using m1(2) by linarith
  from sink_pick_live[OF assms(1) m1(1) this]
  have p2: "sink_pick h m1 ?r = Inr mx"
    using lr by (auto simp: mx_def)
  have sm: "sink_max h i = Inr mx" by (simp add: sink_max_def p1 p2)
  have a: "mx = i \<or> ((mx = ?l \<or> mx = ?r) \<and> mx \<le> ?n \<and> js_less (key h i) (key h mx))"
    unfolding mx_def m1_def by (auto intro: js_less_trans)
  have b: "\<not> js_less (key h mx) (key h ?l)" if "?l \<le> ?n"
  proof (cases "?r \<le> ?n \<and> js_less (key h m1) (key h ?r)")
    case True
    then have mxr: "mx = ?r" by (simp add: mx_def)
    show ?thesis
    proof (cases "js_less (key h i) (key h ?l)")
      case True
      with that \<open>?r \<le> ?n \<and> js_less (key h m1) (key h ?r)\<close> show ?thesis
        by (auto simp: mxr m1_def dest: js_less_asym)
    next
      case False
      then have "m1 = i" by (simp add: m1_def)
      with True have ir: "js_less (key h i) (key h ?r)" by simp
      show ?thesis
      proof
        assume "js_less (key h mx) (key h ?l)"
        with ir have "js_less (key h i) (key h ?l)" unfolding mxr by (rule js_less_trans)
        with False show False by simp
      qed
    qed
  next
    case False
    then have "mx = m1" by (auto simp: mx_def)
    then show ?thesis using that by (auto simp: m1_def dest: js_less_asym)
  qed
  have c: "\<not> js_less (key h mx) (key h ?r)" if "?r \<le> ?n"
    using that by (auto simp: mx_def dest: js_less_asym)
  from sm a b c show ?thesis by blast
qed

subsection \<open>sink: what it returns and what it leaves alone\<close>

lemma objs_upto_swap_h:
  assumes "objs_upto h n" "1 \<le> a" "a \<le> n" "1 \<le> b" "b \<le> n"
  shows "objs_upto (swap_h h a b) n"
proof -
  have "set (slots (swap_h h a b) n) = set (slots h n)"
    using slots_swap_h[OF assms(2-5), of h] by (rule mset_eq_setD)
  with assms(1) show ?thesis by (simp add: objs_upto_slots)
qed

lemma sink_frame:
  assumes "objs_upto h (count_of h)" "1 \<le> i"
  shows "\<exists>h'. sink h i = Inr h' \<and> mem h' = mem h \<and> size_of h' = size_of h \<and>
           count_of h' = count_of h \<and> length (storage h') = length (storage h) \<and>
           (\<forall>k. k < i \<or> count_of h < k \<longrightarrow> js_get (storage h') k = js_get (storage h) k) \<and>
           (\<forall>n\<ge>count_of h. mset (slots h' n) = mset (slots h n))"
  using assms
proof (induction h i rule: sink.induct)
  case (1 h i)
  from sink_max_live[OF "1.prems"] obtain mx where
    sm: "sink_max h i = Inr mx" and
    mx: "mx = i \<or> ((mx = left i \<or> mx = right i) \<and> mx \<le> count_of h)"
    by blast
  show ?case
  proof (cases "mx = i")
    case True
    then have "sink h i = Inr h" using sm by (subst sink.simps) simp
    then show ?thesis by simp
  next
    case False
    let ?h1 = "swap_h h i mx"
    from False mx "1.prems"(2) have rng: "1 \<le> i" "i < mx" "mx \<le> count_of h"
      by (auto simp: left_def right_def)
    have o1: "objs_upto ?h1 (count_of ?h1)"
      using objs_upto_swap_h[OF "1.prems"(1), of i mx] rng by simp
    from "1.IH"[OF sm False o1] rng obtain h' where
      s': "sink ?h1 mx = Inr h'" and
      fr: "mem h' = mem h" "size_of h' = size_of h" "count_of h' = count_of h"
          "length (storage h') = length (storage ?h1)" and
      out: "\<And>k. k < mx \<or> count_of h < k \<Longrightarrow> js_get (storage h') k = js_get (storage ?h1) k" and
      ms: "\<And>n. count_of h \<le> n \<Longrightarrow> mset (slots h' n) = mset (slots ?h1 n)"
      by auto
    have s: "sink h i = Inr h'" using sm False s' by (subst sink.simps) simp
    have inr: "i < int (length (storage h))" "mx < int (length (storage h))"
      using objs_upto_length[OF "1.prems"(1)] rng by auto
    have len: "length (storage ?h1) = length (storage h)"
      using length_swap_h[of i h mx] rng inr by simp
    have out': "js_get (storage h') k = js_get (storage h) k" if "k < i \<or> count_of h < k" for k
    proof -
      from that rng have "k < mx \<or> count_of h < k" "k \<noteq> i" "k \<noteq> mx" by auto
      then show ?thesis using out[of k] get_swap_h[of i mx h k] rng by simp
    qed
    have ms': "mset (slots h' n) = mset (slots h n)" if "count_of h \<le> n" for n
      using ms[OF that] slots_swap_h[of i n mx h] rng that by simp
    from s fr len out' ms' show ?thesis by simp
  qed
qed

subsection \<open>sink restores the heap property\<close>

lemma parent_child: "parent c = i \<longleftrightarrow> c = left i \<or> c = right i"
  unfolding parent_def left_def right_def by presburger

lemma parent_left [simp]: "parent (left i) = i"
  by (simp add: parent_def left_def)

lemma parent_right [simp]: "parent (right i) = i"
  by (simp add: parent_def right_def)

lemma parent_less: "1 \<le> c \<Longrightarrow> parent c < c"
  unfolding parent_def by presburger

lemma parent_ge: "2 \<le> c \<Longrightarrow> 1 \<le> parent c"
  unfolding parent_def by presburger

lemma heap_inv_pheap: "heap_inv h \<longleftrightarrow> pheap h 1 (count_of h)"
proof
  assume hi: "heap_inv h"
  show "pheap h 1 (count_of h)"
    unfolding pheap_def edge_ok_def
  proof (intro ballI impI)
    fix c assume c: "c \<in> {2..count_of h}" and "1 \<le> parent c"
    let ?p = "parent c"
    have p: "?p \<in> {1..count_of h}" using c parent_less[of c] parent_ge[of c] by auto
    have "c = left ?p \<or> c = right ?p" using parent_child[of c ?p] by simp
    then show "js_ge (key h ?p) (key h c)"
      using hi p c unfolding heap_inv_def by (metis atLeastAtMost_iff)
  qed
next
  assume ph: "pheap h 1 (count_of h)"
  show "heap_inv h"
    unfolding heap_inv_def
  proof (intro ballI conjI impI)
    fix i assume i: "i \<in> {1..count_of h}" and l: "left i \<le> count_of h"
    have "left i \<in> {2..count_of h}" using i l by (auto simp: left_def)
    with ph i show "js_ge (key h i) (key h (left i))"
      unfolding pheap_def edge_ok_def by fastforce
  next
    fix i assume i: "i \<in> {1..count_of h}" and r: "right i \<le> count_of h"
    have "right i \<in> {2..count_of h}" using i r by (auto simp: right_def)
    with ph i show "js_ge (key h i) (key h (right i))"
      unfolding pheap_def edge_ok_def by fastforce
  qed
qed

lemma numeric_swap_h:
  assumes "numeric h" "1 \<le> a" "a \<le> count_of h" "1 \<le> b" "b \<le> count_of h"
  shows "numeric (swap_h h a b)"
  using assms unfolding numeric_def by (auto simp: key_swap_h)

lemma sink_pheap:
  assumes "objs_upto h (count_of h)" "numeric h" "1 \<le> k" "k \<le> i"
    "\<forall>c\<in>{2..count_of h}. k \<le> parent c \<and> parent c \<noteq> i \<longrightarrow> edge_ok h c"
    "\<forall>c\<in>{2..count_of h}. parent c = i \<and> k \<le> parent i \<longrightarrow> js_ge (key h (parent i)) (key h c)"
    "sink h i = Inr h'"
  shows "pheap h' k (count_of h)"
  using assms
proof (induction h i rule: sink.induct)
  case (1 h i)
  let ?n = "count_of h"
  note objs = "1.prems"(1) and num = "1.prems"(2) and k = "1.prems"(3,4)
    and A = "1.prems"(5) and B = "1.prems"(6) and res = "1.prems"(7)
  have i1: "1 \<le> i" using k by simp
  from sink_max_live[OF objs i1] obtain mx where
    sm: "sink_max h i = Inr mx" and
    mx: "mx = i \<or> ((mx = left i \<or> mx = right i) \<and> mx \<le> ?n \<and> js_less (key h i) (key h mx))" and
    nl: "left i \<le> ?n \<Longrightarrow> \<not> js_less (key h mx) (key h (left i))" and
    nr: "right i \<le> ?n \<Longrightarrow> \<not> js_less (key h mx) (key h (right i))"
    by blast
  have numD: "key h j \<noteq> None" if "1 \<le> j" "j \<le> ?n" for j
    using num that by (auto simp: numeric_def)
  have mx_rng: "1 \<le> mx" "mx \<le> ?n \<or> mx = i" using mx i1 by (auto simp: left_def right_def)
  have ge_child: "js_ge (key h mx) (key h c)" if "c \<in> {2..?n}" "parent c = i" for c
  proof -
    from that have ci: "c = left i \<or> c = right i" by (simp add: parent_child)
    have "i \<le> ?n" using that parent_less[of c] by auto
    then have "key h mx \<noteq> None" using mx_rng numD[of mx] by auto
    moreover have "key h c \<noteq> None" using that numD[of c] by auto
    moreover have "\<not> js_less (key h mx) (key h c)" using ci nl nr that by auto
    ultimately show ?thesis by (simp add: not_js_less)
  qed
  show ?case
  proof (cases "mx = i")
    case True
    then have "sink h i = Inr h" using sm by (subst sink.simps) simp
    with res have h': "h' = h" by simp
    show ?thesis
      unfolding pheap_def h'
    proof (intro ballI impI)
      fix c assume c: "c \<in> {2..?n}" and kp: "k \<le> parent c"
      show "edge_ok h c"
      proof (cases "parent c = i")
        case True
        from ge_child[OF c True] show ?thesis
          using \<open>mx = i\<close> True by (simp add: edge_ok_def)
      next
        case False
        with A c kp show ?thesis by blast
      qed
    qed
  next
    case False
    let ?h1 = "swap_h h i mx"
    from False mx i1 have rng: "i < mx" "mx \<le> ?n" and pm: "parent mx = i"
      and lt: "js_less (key h i) (key h mx)"
      by (auto simp: left_def right_def parent_def)
    have key1: "key ?h1 mx = key h i" "key ?h1 i = key h mx"
      "x \<noteq> i \<Longrightarrow> x \<noteq> mx \<Longrightarrow> key ?h1 x = key h x" for x
      using key_swap_h[of i mx h] i1 rng by simp_all
    have s1: "sink ?h1 mx = Inr h'" using res sm False by (subst (asm) sink.simps) simp
    have o1: "objs_upto ?h1 (count_of ?h1)"
      using objs_upto_swap_h[OF objs, of i mx] i1 rng by simp
    have n1: "numeric ?h1" using numeric_swap_h[OF num, of i mx] i1 rng by simp
    have A1: "\<forall>c\<in>{2..count_of ?h1}. k \<le> parent c \<and> parent c \<noteq> mx \<longrightarrow> edge_ok ?h1 c"
    proof (intro ballI impI)
      fix c assume "c \<in> {2..count_of ?h1}" and kp: "k \<le> parent c \<and> parent c \<noteq> mx"
      then have c: "c \<in> {2..?n}" by simp
      have pc: "parent c < c" using c parent_less[of c] by simp
      show "edge_ok ?h1 c"
      proof (cases "parent c = i")
        case True
        then have ci: "c \<noteq> i" using pc by simp
        show ?thesis
        proof (cases "c = mx")
          case True
          then show ?thesis using lt pm rng by (simp add: edge_ok_def key1 js_less_ge)
        next
          case False
          then show ?thesis using ge_child[OF c \<open>parent c = i\<close>] ci \<open>parent c = i\<close>
            by (simp add: edge_ok_def key1)
        qed
      next
        case False
        have cm: "c \<noteq> mx" using False pm by auto
        show ?thesis
        proof (cases "c = i")
          case True
          have "mx \<in> {2..?n}" using rng i1 by simp
          with B pm kp True have "js_ge (key h (parent i)) (key h mx)" by blast
          then show ?thesis using True False kp pc by (simp add: edge_ok_def key1)
        next
          case ci: False
          from A c kp False have "edge_ok h c" by blast
          then show ?thesis using ci cm False kp by (simp add: edge_ok_def key1)
        qed
      qed
    qed
    have B1: "\<forall>c\<in>{2..count_of ?h1}. parent c = mx \<and> k \<le> parent mx \<longrightarrow>
                js_ge (key ?h1 (parent mx)) (key ?h1 c)"
    proof (intro ballI impI)
      fix c assume "c \<in> {2..count_of ?h1}" and pc: "parent c = mx \<and> k \<le> parent mx"
      then have c: "c \<in> {2..?n}" by simp
      have "mx < c" using c pc parent_less[of c] by simp
      then have ne: "c \<noteq> i" "c \<noteq> mx" using rng by auto
      have "k \<le> parent c \<and> parent c \<noteq> i" using pc k rng by simp
      with A c have "edge_ok h c" by blast
      then show "js_ge (key ?h1 (parent mx)) (key ?h1 c)"
        using pc pm ne rng by (simp add: edge_ok_def key1)
    qed
    have "k \<le> mx" using k rng by simp
    from "1.IH"[OF sm False o1 n1 k(1) this A1 B1 s1] show ?thesis by simp
  qed
qed

subsection \<open>The root is the maximum; buildheap\<close>

lemma objs_upto_mset:
  "mset (slots h' n) = mset (slots h n) \<Longrightarrow> objs_upto h' n = objs_upto h n"
  unfolding objs_upto_slots by (auto dest: mset_eq_setD)

lemma numeric_mset:
  assumes "mset (slots h' (count_of h)) = mset (slots h (count_of h))"
    "mem h' = mem h" "count_of h' = count_of h"
  shows "numeric h' = numeric h"
  unfolding numeric_slots using assms by (auto dest: mset_eq_setD)

text \<open>What \<open>sink\<close> does to a well-shaped heap, in one statement.\<close>

lemma sink_ok:
  assumes "objs_upto h (count_of h)" "numeric h" "1 \<le> i"
  obtains h' where "sink h i = Inr h'" "mem h' = mem h" "size_of h' = size_of h"
    "count_of h' = count_of h" "length (storage h') = length (storage h)"
    "\<And>k. k < i \<or> count_of h < k \<Longrightarrow> js_get (storage h') k = js_get (storage h) k"
    "\<And>n. count_of h \<le> n \<Longrightarrow> mset (slots h' n) = mset (slots h n)"
    "objs_upto h' (count_of h')" "numeric h'"
proof -
  from sink_frame[OF assms(1,3)] obtain h' where
    s: "sink h i = Inr h'" and fr: "mem h' = mem h" "size_of h' = size_of h"
    "count_of h' = count_of h" "length (storage h') = length (storage h)" and
    out: "\<And>k. k < i \<or> count_of h < k \<Longrightarrow> js_get (storage h') k = js_get (storage h) k" and
    ms: "\<And>n. count_of h \<le> n \<Longrightarrow> mset (slots h' n) = mset (slots h n)"
    by blast
  have "objs_upto h' (count_of h')"
    using objs_upto_mset[OF ms[of "count_of h"]] assms(1) fr by simp
  moreover have "numeric h'"
    using numeric_mset[OF ms[of "count_of h"] fr(1,3)] assms(2) by simp
  ultimately show ?thesis using that[OF s fr out ms] by blast
qed

lemma root_max:
  assumes "pheap h 1 n" "key h 1 \<noteq> None" "1 \<le> i" "i \<le> n"
  shows "js_ge (key h 1) (key h i)"
  using assms(3,4)
proof (induction "nat i" arbitrary: i rule: less_induct)
  case less
  show ?case
  proof (cases "i = 1")
    case True
    then show ?thesis using assms(2) by (simp add: js_ge_refl)
  next
    case False
    with less.prems have i2: "2 \<le> i" by simp
    let ?p = "parent i"
    have p: "1 \<le> ?p" "?p < i" using parent_ge[OF i2] parent_less[of i] i2 by auto
    then have "nat ?p < nat i" by simp
    from less.hyps[OF this p(1)] p less.prems have "js_ge (key h 1) (key h ?p)" by simp
    moreover have "js_ge (key h ?p) (key h i)"
      using assms(1) i2 less.prems p unfolding pheap_def edge_ok_def by simp
    ultimately show ?thesis by (rule js_ge_trans)
  qed
qed

lemma pheap_leaves: "count_of h div 2 < k \<Longrightarrow> pheap h k (count_of h)"
  unfolding pheap_def parent_def by (auto simp: zdiv_mono1 dest!: leD)

lemma buildheap_loop_ok:
  assumes "objs_upto h (count_of h)" "numeric h" "0 \<le> i" "pheap h (i + 1) (count_of h)"
  shows "\<exists>h'. buildheap_loop h i = Inr h' \<and> mem h' = mem h \<and> size_of h' = size_of h \<and>
           count_of h' = count_of h \<and> length (storage h') = length (storage h) \<and>
           (\<forall>k. k < 1 \<or> count_of h < k \<longrightarrow> js_get (storage h') k = js_get (storage h) k) \<and>
           (\<forall>n\<ge>count_of h. mset (slots h' n) = mset (slots h n)) \<and>
           objs_upto h' (count_of h') \<and> numeric h' \<and> pheap h' 1 (count_of h')"
  using assms
proof (induction h i rule: buildheap_loop.induct)
  case (1 h i)
  show ?case
  proof (cases "1 \<le> i")
    case False
    with "1.prems" have "i = 0" by simp
    then have "buildheap_loop h i = Inr h" by (subst buildheap_loop.simps) simp
    moreover have "pheap h 1 (count_of h)" using "1.prems"(4) \<open>i = 0\<close> by simp
    ultimately show ?thesis using "1.prems" by simp
  next
    case True
    from sink_ok[OF "1.prems"(1,2) True] obtain h1 where
      s: "sink h i = Inr h1" and fr: "mem h1 = mem h" "size_of h1 = size_of h"
        "count_of h1 = count_of h" "length (storage h1) = length (storage h)" and
      out: "\<And>k. k < i \<or> count_of h < k \<Longrightarrow> js_get (storage h1) k = js_get (storage h) k" and
      ms: "\<And>n. count_of h \<le> n \<Longrightarrow> mset (slots h1 n) = mset (slots h n)" and
      o1: "objs_upto h1 (count_of h1)" and n1: "numeric h1"
      by blast
    have A: "\<forall>c\<in>{2..count_of h}. i \<le> parent c \<and> parent c \<noteq> i \<longrightarrow> edge_ok h c"
      using "1.prems"(4) unfolding pheap_def by auto
    have B: "\<forall>c\<in>{2..count_of h}. parent c = i \<and> i \<le> parent i \<longrightarrow>
               js_ge (key h (parent i)) (key h c)"
      using parent_less[of i] True by auto
    have "pheap h1 i (count_of h)"
      using sink_pheap[OF "1.prems"(1,2) True _ A B s] by simp
    then have p1: "pheap h1 (i - 1 + 1) (count_of h1)" using fr by simp
    have "0 \<le> i - 1" using True by simp
    from "1.IH"[OF True s o1 n1 this p1] obtain h' where
      b: "buildheap_loop h1 (i - 1) = Inr h'" and fr': "mem h' = mem h1" "size_of h' = size_of h1"
        "count_of h' = count_of h1" "length (storage h') = length (storage h1)" and
      out': "\<forall>k. k < 1 \<or> count_of h1 < k \<longrightarrow> js_get (storage h') k = js_get (storage h1) k" and
      ms': "\<forall>n\<ge>count_of h1. mset (slots h' n) = mset (slots h1 n)" and
      rest: "objs_upto h' (count_of h')" "numeric h'" "pheap h' 1 (count_of h')"
      by blast
    have "buildheap_loop h i = Inr h'" using True s b by (subst buildheap_loop.simps) simp
    moreover have "\<forall>k. k < 1 \<or> count_of h < k \<longrightarrow> js_get (storage h') k = js_get (storage h) k"
      using out' out fr True by auto
    moreover have "\<forall>n\<ge>count_of h. mset (slots h' n) = mset (slots h n)"
      using ms' ms fr by auto
    ultimately show ?thesis using fr fr' rest by simp
  qed
qed

lemma buildheap_ok:
  assumes "objs_upto h (count_of h)" "numeric h" "0 \<le> count_of h"
  shows "\<exists>h'. buildheap h = Inr h' \<and> mem h' = mem h \<and> size_of h' = size_of h \<and>
           count_of h' = count_of h \<and> length (storage h') = length (storage h) \<and>
           (\<forall>k. k < 1 \<or> count_of h < k \<longrightarrow> js_get (storage h') k = js_get (storage h) k) \<and>
           (\<forall>n\<ge>count_of h. mset (slots h' n) = mset (slots h n)) \<and>
           objs_upto h' (count_of h') \<and> numeric h' \<and> heap_inv h'"
proof -
  have "0 \<le> count_of h div 2" using assms(3) by simp
  moreover have "pheap h (count_of h div 2 + 1) (count_of h)"
    by (rule pheap_leaves) simp
  ultimately show ?thesis
    using buildheap_loop_ok[OF assms(1,2), of "count_of h div 2"]
    by (simp add: buildheap_def heap_inv_pheap Let_def)
qed

subsection \<open>removeMax\<close>

lemma count_update_simps [simp]:
  "key (h\<lparr>count_of := x\<rparr>) = key h"
  "slots (h\<lparr>count_of := x\<rparr>) = slots h"
  "objs_upto (h\<lparr>count_of := x\<rparr>) = objs_upto h"
  by (simp_all add: key_def slots_def objs_upto_def fun_eq_iff)

lemma slots_snoc: "1 \<le> n \<Longrightarrow> slots h n = slots h (n - 1) @ [js_get (storage h) n]"
  unfolding slots_def by (subst upto_rec2) simp_all

lemma removeMax_ok:
  assumes "objs_upto h (count_of h)" "numeric h" "heap_inv h" "1 \<le> count_of h"
  shows "\<exists>v h' a. removeMax h = Inr (v, h') \<and>
    count_of h' = count_of h - 1 \<and> mem h' = mem h \<and> size_of h' = size_of h \<and>
    length (storage h') = length (storage h) \<and>
    js_get (storage h) 1 = Obj a \<and> js_get (storage h') (count_of h) = Obj a \<and>
    v = element (mem h a) \<and>
    (\<forall>k. k < 1 \<or> count_of h < k \<longrightarrow> js_get (storage h') k = js_get (storage h) k) \<and>
    (\<forall>n\<ge>count_of h. mset (slots h' n) = mset (slots h n)) \<and>
    mset (slots h (count_of h)) = add_mset (Obj a) (mset (slots h' (count_of h'))) \<and>
    objs_upto h' (count_of h') \<and> numeric h' \<and> heap_inv h'"
proof -
  let ?c = "count_of h"
  let ?h1 = "swap_h h 1 ?c"
  let ?h2 = "?h1\<lparr>count_of := count_of ?h1 - 1\<rparr>"
  have c: "1 \<le> ?c" by fact
  from objs_uptoD[OF assms(1), of 1] c obtain a where a: "js_get (storage h) 1 = Obj a" by auto
  have inr: "?c < int (length (storage h))" using objs_upto_length[OF assms(1)] c by auto
  have key1: "key ?h1 ?c = key h 1" "key ?h1 1 = key h ?c"
    "x \<noteq> 1 \<Longrightarrow> x \<noteq> ?c \<Longrightarrow> key ?h1 x = key h x" for x
    using key_swap_h[of 1 ?c h] c by simp_all
  have o1: "objs_upto ?h1 ?c" using objs_upto_swap_h[OF assms(1), of 1 ?c] c by simp
  then have o2: "objs_upto ?h2 (count_of ?h2)" by (simp add: objs_upto_mono)
  have n1: "numeric ?h1" using numeric_swap_h[OF assms(2), of 1 ?c] c by simp
  then have n2: "numeric ?h2" by (auto simp: numeric_def)
  from sink_ok[OF o2 n2, of 1] obtain h3 where
    s: "sink ?h2 1 = Inr h3" and fr: "mem h3 = mem h" "size_of h3 = size_of h"
      "count_of h3 = ?c - 1" "length (storage h3) = length (storage ?h1)" and
    out: "\<And>k. k < 1 \<or> ?c - 1 < k \<Longrightarrow> js_get (storage h3) k = js_get (storage ?h1) k" and
    ms: "\<And>n. ?c - 1 \<le> n \<Longrightarrow> mset (slots h3 n) = mset (slots ?h1 n)" and
    o3: "objs_upto h3 (count_of h3)" and n3: "numeric h3"
    by (auto simp: swap_h_def Let_def)
  have len: "length (storage h3) = length (storage h)"
    using fr(4) length_swap_h[of 1 h ?c] c inr by simp
  have last: "js_get (storage h3) ?c = Obj a"
    using out[of ?c] get_swap_h[of 1 ?c h ?c] c a by simp
  have out': "js_get (storage h3) k = js_get (storage h) k" if "k < 1 \<or> ?c < k" for k
    using out[of k] get_swap_h[of 1 ?c h k] c that by auto
  have ms': "mset (slots h3 n) = mset (slots h n)" if "?c \<le> n" for n
    using ms[of n] slots_swap_h[of 1 n ?c h] c that by simp
  have live: "mset (slots h ?c) = add_mset (Obj a) (mset (slots h3 (count_of h3)))"
    using ms'[of ?c] slots_snoc[OF c, of h3] last fr(3) by simp
  have ph: "pheap h 1 ?c" using assms(3) by (simp add: heap_inv_pheap)
  have A: "\<forall>c'\<in>{2..count_of ?h2}. 1 \<le> parent c' \<and> parent c' \<noteq> 1 \<longrightarrow> edge_ok ?h2 c'"
  proof (intro ballI impI)
    fix c' assume c': "c' \<in> {2..count_of ?h2}" and p: "1 \<le> parent c' \<and> parent c' \<noteq> 1"
    then have r: "2 \<le> c'" "c' < ?c" by simp_all
    have "parent c' < c'" using parent_less[of c'] r by simp
    then have ne: "c' \<noteq> 1" "c' \<noteq> ?c" "parent c' \<noteq> ?c" using r by auto
    have "edge_ok h c'" using ph r p unfolding pheap_def by simp
    then show "edge_ok ?h2 c'" using ne p by (simp add: edge_ok_def key1)
  qed
  have B: "\<forall>c'\<in>{2..count_of ?h2}. parent c' = 1 \<and> 1 \<le> parent 1 \<longrightarrow>
             js_ge (key ?h2 (parent 1)) (key ?h2 c')"
    by (simp add: parent_def)
  have "pheap h3 1 (count_of ?h2)"
    using sink_pheap[OF o2 n2 _ _ A B s] by simp
  then have hi: "heap_inv h3" using fr(3) by (simp add: heap_inv_pheap)
  have d: "deref h3 ?c = Inr a" using last by (rule deref_Obj)
  have "removeMax h = Inr (element (mem h a), h3)"
    using c s d fr(1) by (simp add: removeMax_def Let_def)
  moreover have "\<forall>k. k < 1 \<or> ?c < k \<longrightarrow> js_get (storage h3) k = js_get (storage h) k"
    using out' by blast
  moreover have "\<forall>n\<ge>?c. mset (slots h3 n) = mset (slots h n)"
    using ms' by blast
  ultimately show ?thesis using fr(1-3) len a last live o3 n3 hi by simp
qed

subsection \<open>sort\<close>

lemma sort_loop_times: "sort_loop h i c = removeMax_times (nat (c - i)) h"
proof (induction h i c rule: sort_loop.induct)
  case (1 h i c)
  show ?case
  proof (cases "i < c")
    case True
    then have n: "nat (c - i) = Suc (nat (c - (i + 1)))" by simp
    show ?thesis
      using True "1.IH"[OF True]
      by (subst sort_loop.simps) (simp add: n split: sum.splits prod.splits)
  next
    case False
    then show ?thesis by (subst sort_loop.simps) simp
  qed
qed

lemma removeMax_tail_sorted:
  assumes "numeric h" "heap_inv h" "1 \<le> count_of h" "count_of h \<le> n"
    "tail_sorted h (count_of h) n"
    "mem h' = mem h" "js_get (storage h) 1 = Obj a" "js_get (storage h') (count_of h) = Obj a"
    "\<And>k. count_of h < k \<Longrightarrow> js_get (storage h') k = js_get (storage h) k"
    "mset (slots h (count_of h)) = add_mset (Obj a) (mset (slots h' (count_of h - 1)))"
  shows "tail_sorted h' (count_of h - 1) n"
proof -
  let ?c = "count_of h"
  have root: "key h 1 \<noteq> None" using assms(1,3) by (auto simp: numeric_def)
  have ph: "pheap h 1 ?c" using assms(2) by (simp add: heap_inv_pheap)
  have at_c: "key h' ?c = key h 1" using assms(6,7,8) by (simp add: key_def)
  have above: "key h' k = key h k" if "?c < k" for k
    using assms(9)[OF that] assms(6) by (simp add: key_def)
  have below: "\<exists>x\<in>{1..?c}. key h' k = key h x" if "1 \<le> k" "k \<le> ?c" for k
  proof (cases "k = ?c")
    case True
    then show ?thesis using at_c assms(3) by auto
  next
    case False
    with that have "k \<in> {1..?c - 1}" by simp
    then have "js_get (storage h') k \<in> set (slots h' (?c - 1))" by (simp add: set_slots)
    then have "js_get (storage h') k \<in># mset (slots h ?c)" by (simp add: assms(10))
    then have "js_get (storage h') k \<in> js_get (storage h) ` {1..?c}" by (simp add: set_slots)
    then show ?thesis using assms(6) by (auto simp: key_def)
  qed
  show ?thesis
    unfolding tail_sorted_def
  proof (intro ballI impI)
    fix a' b assume a': "a' \<in> {1..n}" and "b \<in> {?c - 1 + 1..n}" and le: "a' \<le> b"
    then have b: "?c \<le> b" "b \<le> n" by simp_all
    show "js_ge (key h' b) (key h' a')"
    proof (cases "b = ?c")
      case True
      from below[of a'] a' le True obtain x where x: "x \<in> {1..?c}" "key h' a' = key h x" by auto
      have "js_ge (key h 1) (key h x)" using root_max[OF ph root] x(1) by simp
      then show ?thesis using True at_c x(2) by simp
    next
      case False
      with b have bc: "?c < b" by simp
      have ts: "js_ge (key h b) (key h x)" if "1 \<le> x" "x \<le> b" for x
        using assms(5) that bc b unfolding tail_sorted_def by simp
      show ?thesis
      proof (cases "?c < a'")
        case True
        then show ?thesis using ts[of a'] above bc le a' by simp
      next
        case False
        with below[of a'] a' obtain x where x: "x \<in> {1..?c}" "key h' a' = key h x" by auto
        then show ?thesis using ts[of x] above[OF bc] bc by simp
      qed
    qed
  qed
qed

lemma removeMax_times_ok:
  assumes "objs_upto h (count_of h)" "numeric h" "heap_inv h" "int k \<le> count_of h"
    "count_of h \<le> n" "tail_sorted h (count_of h) n"
  shows "\<exists>h'. removeMax_times k h = Inr h' \<and> count_of h' = count_of h - int k \<and>
           mem h' = mem h \<and> size_of h' = size_of h \<and>
           length (storage h') = length (storage h) \<and>
           (\<forall>j. j < 1 \<or> count_of h < j \<longrightarrow> js_get (storage h') j = js_get (storage h) j) \<and>
           (\<forall>m\<ge>count_of h. mset (slots h' m) = mset (slots h m)) \<and>
           objs_upto h' (count_of h') \<and> numeric h' \<and> heap_inv h' \<and>
           tail_sorted h' (count_of h') n"
  using assms
proof (induction k arbitrary: h)
  case 0
  then show ?case by simp
next
  case (Suc k)
  let ?c = "count_of h"
  have c: "1 \<le> ?c" using Suc.prems(4) by simp
  from removeMax_ok[OF Suc.prems(1-3) c] obtain v h1 a where
    r: "removeMax h = Inr (v, h1)" and fr: "count_of h1 = ?c - 1" "mem h1 = mem h"
      "size_of h1 = size_of h" "length (storage h1) = length (storage h)" and
    a: "js_get (storage h) 1 = Obj a" "js_get (storage h1) ?c = Obj a" and
    out: "\<forall>j. j < 1 \<or> ?c < j \<longrightarrow> js_get (storage h1) j = js_get (storage h) j" and
    ms: "\<forall>m\<ge>?c. mset (slots h1 m) = mset (slots h m)" and
    live: "mset (slots h ?c) = add_mset (Obj a) (mset (slots h1 (count_of h1)))" and
    inv: "objs_upto h1 (count_of h1)" "numeric h1" "heap_inv h1"
    by blast
  have ts: "tail_sorted h1 (count_of h1) n"
    using removeMax_tail_sorted[OF Suc.prems(2,3) c Suc.prems(5,6) fr(2) a _ live[unfolded fr(1)]]
      out fr(1) by simp
  have k: "int k \<le> count_of h1" "count_of h1 \<le> n" using Suc.prems(4,5) fr(1) by simp_all
  from Suc.IH[OF inv k ts] obtain h' where
    t: "removeMax_times k h1 = Inr h'" and fr': "count_of h' = count_of h1 - int k"
      "mem h' = mem h1" "size_of h' = size_of h1" "length (storage h') = length (storage h1)" and
    out': "\<forall>j. j < 1 \<or> count_of h1 < j \<longrightarrow> js_get (storage h') j = js_get (storage h1) j" and
    ms': "\<forall>m\<ge>count_of h1. mset (slots h' m) = mset (slots h1 m)" and
    rest: "objs_upto h' (count_of h')" "numeric h'" "heap_inv h'" "tail_sorted h' (count_of h') n"
    by blast
  have "removeMax_times (Suc k) h = Inr h'" using r t by simp
  moreover have "\<forall>j. j < 1 \<or> ?c < j \<longrightarrow> js_get (storage h') j = js_get (storage h) j"
    using out out' fr(1) by auto
  moreover have "\<forall>m\<ge>?c. mset (slots h' m) = mset (slots h m)"
    using ms ms' fr(1) by auto
  moreover have "count_of h' = ?c - int (Suc k)" using fr' fr by simp
  ultimately show ?case using fr fr' rest by simp
qed

lemma tail_sorted_prios:
  assumes "tail_sorted h 0 n"
  shows "sorted_wrt (\<lambda>x y. js_ge y x) (prios h n)"
proof -
  have "js_ge (key h ([1..n] ! j)) (key h ([1..n] ! i))" if ij: "i < j" "j < nat n" for i j
  proof -
    from ij have "[1..n] ! i = 1 + int i" "[1..n] ! j = 1 + int j" by simp_all
    moreover have "js_ge (key h (1 + int j)) (key h (1 + int i))"
      using assms ij unfolding tail_sorted_def by simp
    ultimately show ?thesis by simp
  qed
  then show ?thesis
    by (simp add: prios_def sorted_wrt_map sorted_wrt_iff_nth_less)
qed

lemma sort_op_ok:
  assumes "objs_upto h (count_of h)" "numeric h" "heap_inv h" "0 \<le> count_of h"
  shows "\<exists>h'. sort_op h = Inr (storage h', h') \<and> count_of h' = 0 \<and>
           mem h' = mem h \<and> size_of h' = size_of h \<and>
           length (storage h') = length (storage h) \<and>
           (\<forall>j. j < 1 \<or> count_of h < j \<longrightarrow> js_get (storage h') j = js_get (storage h) j) \<and>
           (\<forall>m\<ge>count_of h. mset (slots h' m) = mset (slots h m)) \<and>
           sorted_wrt (\<lambda>x y. js_ge y x) (prios h' (count_of h))"
proof -
  let ?c = "count_of h"
  have ts: "tail_sorted h ?c ?c" by (simp add: tail_sorted_def)
  have k: "int (nat ?c) \<le> ?c" using assms(4) by simp
  from removeMax_times_ok[OF assms(1-3) k order_refl ts] assms(4) obtain h' where
    t: "removeMax_times (nat ?c) h = Inr h'" and c0: "count_of h' = 0" and
    fr: "mem h' = mem h" "size_of h' = size_of h" "length (storage h') = length (storage h)" and
    out: "\<forall>j. j < 1 \<or> ?c < j \<longrightarrow> js_get (storage h') j = js_get (storage h) j" and
    ms: "\<forall>m\<ge>?c. mset (slots h' m) = mset (slots h m)" and
    ts': "tail_sorted h' (count_of h') ?c"
    by auto
  have "sort_op h = Inr (storage h', h')"
    using t by (simp add: sort_op_def Let_def sort_loop_times)
  moreover have "sorted_wrt (\<lambda>x y. js_ge y x) (prios h' ?c)"
    using ts' c0 by (simp add: tail_sorted_prios)
  ultimately show ?thesis using c0 fr out ms by simp
qed

subsection \<open>float\<close>

lemma float_frame:
  assumes "objs_upto h n" "1 \<le> i" "i \<le> n" "i \<le> size_of h"
  shows "\<exists>h'. float h i = Inr h' \<and> mem h' = mem h \<and> size_of h' = size_of h \<and>
           count_of h' = count_of h \<and> length (storage h') = length (storage h) \<and>
           (\<forall>k. k < 1 \<or> i < k \<longrightarrow> js_get (storage h') k = js_get (storage h) k) \<and>
           (\<forall>m\<ge>i. mset (slots h' m) = mset (slots h m))"
  using assms
proof (induction h i rule: float.induct)
  case (1 h i)
  let ?p = "parent i"
  have p: "?p < i" "?p \<le> size_of h" using parent_less[of i] "1.prems" by auto
  show ?case
  proof (cases "1 \<le> ?p")
    case False
    then have "float h i = Inr h" by (subst float.simps) (simp add: inSizeBounds_def)
    then show ?thesis by simp
  next
    case True
    then have isb: "inSizeBounds h ?p" using p by (simp add: inSizeBounds_def)
    have ob: "is_obj (js_get (storage h) ?p)" "is_obj (js_get (storage h) i)"
      using "1.prems" True p by (auto simp: objs_upto_def)
    have la: "less_at h ?p i = Inr (js_less (key h ?p) (key h i))"
      by (rule less_at_key[OF ob])
    show ?thesis
    proof (cases "js_less (key h ?p) (key h i)")
      case False
      then have "float h i = Inr h" using isb la by (subst float.simps) simp
      then show ?thesis by simp
    next
      case lt: True
      let ?h1 = "swap_h h i ?p"
      have o1: "objs_upto ?h1 n"
        using objs_upto_swap_h[OF "1.prems"(1), of i ?p] "1.prems" True p by simp
      have pr: "?p \<le> n" "?p \<le> size_of ?h1" using p "1.prems" by simp_all
      from "1.IH"[OF refl isb la lt o1 True pr] obtain h' where
        f': "float ?h1 ?p = Inr h'" and
        fr: "mem h' = mem h" "size_of h' = size_of h" "count_of h' = count_of h"
            "length (storage h') = length (storage ?h1)" and
        out: "\<forall>k. k < 1 \<or> ?p < k \<longrightarrow> js_get (storage h') k = js_get (storage ?h1) k" and
        ms: "\<forall>m\<ge>?p. mset (slots h' m) = mset (slots ?h1 m)"
        by auto
      have f: "float h i = Inr h'" using isb la lt f' by (subst float.simps) simp
      have inr: "i < int (length (storage h))" "?p < int (length (storage h))"
        using is_obj_in_range ob by auto
      have len: "length (storage ?h1) = length (storage h)"
        using length_swap_h[of i h ?p] "1.prems"(2) True inr by simp
      have out': "\<forall>k. k < 1 \<or> i < k \<longrightarrow> js_get (storage h') k = js_get (storage h) k"
      proof (intro allI impI)
        fix k assume k: "k < 1 \<or> i < k"
        then have "k < 1 \<or> ?p < k" "k \<noteq> i" "k \<noteq> ?p" using p True "1.prems"(2) by auto
        moreover have "js_get (storage ?h1) k = js_get (storage h) k"
          using get_swap_h[of i ?p h k] True "1.prems"(2) calculation by simp
        ultimately show "js_get (storage h') k = js_get (storage h) k"
          using out by metis
      qed
      have ms': "\<forall>m\<ge>i. mset (slots h' m) = mset (slots h m)"
      proof (intro allI impI)
        fix m assume m: "i \<le> m"
        then have "mset (slots h' m) = mset (slots ?h1 m)" using ms p by simp
        also have "\<dots> = mset (slots h m)"
          using slots_swap_h[of i m ?p h] m p True "1.prems"(2) by simp
        finally show "mset (slots h' m) = mset (slots h m)" .
      qed
      from f fr len out' ms' show ?thesis by simp
    qed
  qed
qed

lemma float_pheap:
  assumes "objs_upto h n" "\<forall>j\<in>{1..n}. key h j \<noteq> None" "1 \<le> i" "i \<le> n" "n \<le> size_of h"
    "\<forall>c\<in>{2..n}. c \<noteq> i \<longrightarrow> edge_ok h c"
    "\<forall>c\<in>{2..n}. parent c = i \<and> 2 \<le> i \<longrightarrow> js_ge (key h (parent i)) (key h c)"
    "float h i = Inr h'"
  shows "pheap h' 1 n"
  using assms
proof (induction h i rule: float.induct)
  case (1 h i)
  note objs = "1.prems"(1) and num = "1.prems"(2) and i = "1.prems"(3,4) and n = "1.prems"(5)
    and A = "1.prems"(6) and B = "1.prems"(7) and res = "1.prems"(8)
  let ?p = "parent i"
  have p: "?p < i" "?p \<le> size_of h" using parent_less[of i] i n by auto
  have numD: "key h j \<noteq> None" if "1 \<le> j" "j \<le> n" for j using num that by simp
  have stop: "pheap h 1 n" if "i = 1 \<or> \<not> js_less (key h ?p) (key h i)"
    unfolding pheap_def
  proof (intro ballI impI)
    fix c assume c: "c \<in> {2..n}" and "1 \<le> parent c"
    show "edge_ok h c"
    proof (cases "c = i")
      case True
      with c that have nl: "\<not> js_less (key h ?p) (key h i)" by auto
      have "1 \<le> ?p" using parent_ge[of i] c True by simp
      then have "key h ?p \<noteq> None" "key h i \<noteq> None" using numD[of ?p] numD[of i] p i by auto
      with nl show ?thesis using True by (simp add: edge_ok_def not_js_less)
    next
      case False
      with A c show ?thesis by blast
    qed
  qed
  show ?case
  proof (cases "1 \<le> ?p")
    case False
    then have "float h i = Inr h" by (subst float.simps) (simp add: inSizeBounds_def)
    with res have h': "h' = h" by simp
    have "i = 1" using False i parent_ge[of i] by force
    then show ?thesis using stop h' by simp
  next
    case True
    then have isb: "inSizeBounds h ?p" using p by (simp add: inSizeBounds_def)
    have i2: "2 \<le> i" using True parent_def[of i] by (cases "i = 1") (use i in auto)
    have ob: "is_obj (js_get (storage h) ?p)" "is_obj (js_get (storage h) i)"
      using objs i True p by (auto simp: objs_upto_def)
    have la: "less_at h ?p i = Inr (js_less (key h ?p) (key h i))"
      by (rule less_at_key[OF ob])
    show ?thesis
    proof (cases "js_less (key h ?p) (key h i)")
      case False
      then have "float h i = Inr h" using isb la by (subst float.simps) simp
      with res have h': "h' = h" by simp
      show ?thesis using stop False h' by simp
    next
      case lt: True
      let ?h1 = "swap_h h i ?p"
      have key1: "key ?h1 ?p = key h i" "key ?h1 i = key h ?p"
        "x \<noteq> i \<Longrightarrow> x \<noteq> ?p \<Longrightarrow> key ?h1 x = key h x" for x
        using key_swap_h[of i ?p h] i True p by simp_all
      have f1: "float ?h1 ?p = Inr h'" using res isb la lt by (subst (asm) float.simps) (simp add: Let_def)
      have o1: "objs_upto ?h1 n"
        using objs_upto_swap_h[OF objs, of i ?p] i True p by simp
      have n1: "\<forall>j\<in>{1..n}. key ?h1 j \<noteq> None"
      proof
        fix j assume "j \<in> {1..n}"
        then show "key ?h1 j \<noteq> None"
          using numD[of j] numD[of i] numD[of ?p] key1 i True p
          by (cases "j = i"; cases "j = ?p") auto
      qed
      have edge_i: "js_ge (key h ?p) (key h s)" if "s \<in> {2..n}" "parent s = ?p" "s \<noteq> i" for s
        using A that by (auto simp: edge_ok_def)
      have A1: "\<forall>c\<in>{2..n}. c \<noteq> ?p \<longrightarrow> edge_ok ?h1 c"
      proof (intro ballI impI)
        fix c assume c: "c \<in> {2..n}" and cp: "c \<noteq> ?p"
        have pc: "parent c < c" using c parent_less[of c] by simp
        show "edge_ok ?h1 c"
        proof (cases "c = i")
          case True
          then show ?thesis using lt p by (simp add: edge_ok_def key1 js_less_ge)
        next
          case ci: False
          show ?thesis
          proof (cases "parent c = i")
            case True
            with B c i2 have "js_ge (key h ?p) (key h c)" by blast
            then show ?thesis using True ci cp by (simp add: edge_ok_def key1)
          next
            case pci: False
            show ?thesis
            proof (cases "parent c = ?p")
              case True
              have "js_ge (key h i) (key h ?p)" using lt by (rule js_less_ge)
              moreover have "js_ge (key h ?p) (key h c)" using edge_i[OF c True ci] .
              ultimately have "js_ge (key h i) (key h c)" by (rule js_ge_trans)
              then show ?thesis using True ci cp by (simp add: edge_ok_def key1)
            next
              case False
              from A c ci have "edge_ok h c" by blast
              then show ?thesis using False pci ci cp by (simp add: edge_ok_def key1)
            qed
          qed
        qed
      qed
      have B1: "\<forall>c\<in>{2..n}. parent c = ?p \<and> 2 \<le> ?p \<longrightarrow> js_ge (key ?h1 (parent ?p)) (key ?h1 c)"
      proof (intro ballI impI)
        fix c assume c: "c \<in> {2..n}" and pc: "parent c = ?p \<and> 2 \<le> ?p"
        have pp: "parent ?p < ?p" using parent_less[of ?p] pc by simp
        then have kpp: "key ?h1 (parent ?p) = key h (parent ?p)" using p by (simp add: key1)
        have "?p \<in> {2..n}" using pc p i by simp
        with A p have epp: "js_ge (key h (parent ?p)) (key h ?p)" by (auto simp: edge_ok_def)
        have cne: "c \<noteq> ?p" using pc parent_less[of c] c by auto
        show "js_ge (key ?h1 (parent ?p)) (key ?h1 c)"
        proof (cases "c = i")
          case True
          then show ?thesis using epp kpp by (simp add: key1)
        next
          case False
          have "js_ge (key h ?p) (key h c)" using edge_i[OF c _ False] pc by simp
          with epp have "js_ge (key h (parent ?p)) (key h c)" by (rule js_ge_trans)
          then show ?thesis using False cne kpp by (simp add: key1)
        qed
      qed
      have pr: "?p \<le> n" "n \<le> size_of ?h1" using p i n by simp_all
      from "1.IH"[OF refl isb la lt o1 n1 True pr A1 B1 f1] show ?thesis .
    qed
  qed
qed

subsection \<open>insert\<close>

lemma slots_tl:
  assumes "int (length xs) = n + 1"
  shows "map (js_get xs) [1..n] = tl xs"
proof (rule nth_equalityI)
  show "length (map (js_get xs) [1..n]) = length (tl xs)" using assms by simp
next
  fix i assume "i < length (map (js_get xs) [1..n])"
  then have i: "i < nat n" by simp
  then have "[1..n] ! i = 1 + int i" by simp
  moreover have "1 + int i \<le> n" using i by linarith
  then have "js_get xs (1 + int i) = xs ! Suc i"
    using assms by (simp add: js_get_def nat_add_distrib)
  moreover have "tl xs ! i = xs ! Suc i" using assms i by (simp add: nth_tl)
  ultimately show "map (js_get xs) [1..n] ! i = tl xs ! i" using i by simp
qed

lemma slots_storage: "int (length (storage h)) = n + 1 \<Longrightarrow> slots h n = tl (storage h)"
  unfolding slots_def by (rule slots_tl)

lemma layout_slots: "layout h \<Longrightarrow> slots h (size_of h) = tl (storage h)"
  by (simp add: layout_def slots_storage)

lemma unaliased_mset:
  "mset (slots h' (size_of h)) = mset (slots h (size_of h)) \<Longrightarrow> size_of h' = size_of h \<Longrightarrow>
   unaliased h' = unaliased h"
  unfolding unaliased_def by (auto dest: mset_eq_imp_distinct_iff)

lemma unaliasedD:
  assumes "unaliased h" "1 \<le> i" "i \<le> size_of h" "1 \<le> j" "j \<le> size_of h" "i \<noteq> j"
  shows "js_get (storage h) i \<noteq> js_get (storage h) j"
proof -
  have "inj_on (js_get (storage h)) (set [1..size_of h])"
    using assms(1) unfolding unaliased_def slots_def by (simp add: distinct_map)
  then show ?thesis using assms(2-) by (auto simp: inj_on_def)
qed

lemma layoutI:
  assumes "length (storage h') = length (storage h)" "size_of h' = size_of h"
    "mset (slots h' (size_of h)) = mset (slots h (size_of h))"
    "0 \<le> count_of h'" "count_of h' \<le> size_of h" "layout h"
  shows "layout h'"
  using assms objs_upto_mset[OF assms(3)] by (simp add: layout_def)

lemma mem_update_simps [simp]:
  "storage (h\<lparr>mem := m\<rparr>) = storage h"
  "slots (h\<lparr>mem := m\<rparr>) = slots h"
  "objs_upto (h\<lparr>mem := m\<rparr>) = objs_upto h"
  by (simp_all add: slots_def objs_upto_def fun_eq_iff)

lemma heap_record_updates:
  "(r :: 'e heap_record)\<lparr>priority := x, element := y\<rparr> = \<lparr>priority = x, element = y\<rparr>"
  by (cases r) simp

text \<open>\<open>insert\<close> on a heap of the right shape with room left: it returns, and the array
  holds the references it held.\<close>

lemma insert_frame:
  assumes "layout h" "count_of h < size_of h"
  shows "\<exists>h' a. insert_op h p e = Inr h' \<and> count_of h' = count_of h + 1 \<and>
           size_of h' = size_of h \<and> length (storage h') = length (storage h) \<and>
           js_get (storage h) (count_of h + 1) = Obj a \<and>
           mem h' = (mem h)(a := \<lparr>priority = Some p, element = e\<rparr>) \<and>
           (\<forall>k. k < 1 \<or> count_of h + 1 < k \<longrightarrow> js_get (storage h') k = js_get (storage h) k) \<and>
           (\<forall>m\<ge>count_of h + 1. mset (slots h' m) = mset (slots h m)) \<and>
           float (h\<lparr>mem := (mem h)(a := \<lparr>priority = Some p, element = e\<rparr>)\<rparr>) (count_of h + 1)
             = Inr (h'\<lparr>count_of := count_of h\<rparr>) \<and>
           layout h'"
proof -
  let ?i = "count_of h + 1"
  have i: "1 \<le> ?i" "?i \<le> size_of h" using assms by (simp_all add: layout_def)
  have objs: "objs_upto h (size_of h)" using assms(1) by (simp add: layout_def)
  from objs_uptoD[OF objs i] obtain a where a: "js_get (storage h) ?i = Obj a" by blast
  let ?m = "(mem h)(a := \<lparr>priority = Some p, element = e\<rparr>)"
  let ?h2 = "h\<lparr>mem := ?m\<rparr>"
  have o2: "objs_upto ?h2 (size_of h)" using objs by simp
  from float_frame[OF o2 i(1) i(2)] i obtain h3 where
    f: "float ?h2 ?i = Inr h3" and
    fr: "mem h3 = ?m" "size_of h3 = size_of h" "count_of h3 = count_of h"
        "length (storage h3) = length (storage h)" and
    out: "\<forall>k. k < 1 \<or> ?i < k \<longrightarrow> js_get (storage h3) k = js_get (storage h) k" and
    ms: "\<forall>m\<ge>?i. mset (slots h3 m) = mset (slots h m)"
    by auto
  let ?h' = "h3\<lparr>count_of := count_of h3 + 1\<rparr>"
  have ins: "insert_op h p e = Inr ?h'"
    using i a f
    by (simp add: insert_op_def Let_def inSizeBounds_def deref_def heap_record_updates)
  have "layout ?h'"
    using layoutI[of ?h' h] fr ms i assms by (simp add: layout_def)
  moreover have "h3 = ?h'\<lparr>count_of := count_of h\<rparr>" using fr(3) by simp
  ultimately show ?thesis
    using ins fr a out ms f by (intro exI[of _ ?h'] exI[of _ a]) simp
qed

lemma heap_inv_count_update:
  "pheap h 1 n \<Longrightarrow> heap_inv (h\<lparr>count_of := n\<rparr>)"
  by (simp add: heap_inv_pheap pheap_def edge_ok_def)

lemma insert_ok:
  assumes "layout h" "numeric h" "heap_inv h" "unaliased h" "count_of h < size_of h"
  shows "\<exists>h'. insert_op h p e = Inr h' \<and> count_of h' = count_of h + 1 \<and>
           layout h' \<and> numeric h' \<and> heap_inv h' \<and> unaliased h'"
proof -
  let ?c = "count_of h" let ?i = "count_of h + 1"
  from insert_frame[OF assms(1,5), of p e] obtain h' a where
    ins: "insert_op h p e = Inr h'" and fr: "count_of h' = ?i" "size_of h' = size_of h" and
    m': "mem h' = (mem h)(a := \<lparr>priority = Some p, element = e\<rparr>)" and
    a: "js_get (storage h) ?i = Obj a" and
    ms: "\<forall>m\<ge>?i. mset (slots h' m) = mset (slots h m)" and
    f: "float (h\<lparr>mem := (mem h)(a := \<lparr>priority = Some p, element = e\<rparr>)\<rparr>) ?i
          = Inr (h'\<lparr>count_of := ?c\<rparr>)" and
    lay: "layout h'"
    by blast
  let ?h2 = "h\<lparr>mem := (mem h)(a := \<lparr>priority = Some p, element = e\<rparr>)\<rparr>"
  have cs: "0 \<le> ?c" "?i \<le> size_of h" using assms(1,5) by (simp_all add: layout_def)
  have objs: "objs_upto ?h2 ?i"
    using assms(1) cs by (auto simp: layout_def intro: objs_upto_mono)
  have key_new: "key ?h2 ?i = Some p" using a by (simp add: key_def)
  have key_old: "key ?h2 j = key h j" if "1 \<le> j" "j \<le> ?c" for j
  proof -
    have "js_get (storage h) j \<noteq> Obj a"
      using unaliasedD[OF assms(4), of j ?i] that cs a by simp
    then show ?thesis by (cases "js_get (storage h) j") (simp_all add: key_def)
  qed
  have num2: "\<forall>j\<in>{1..?i}. key ?h2 j \<noteq> None"
  proof
    fix j assume "j \<in> {1..?i}"
    then consider "j = ?i" | "1 \<le> j" "j \<le> ?c" by fastforce
    then show "key ?h2 j \<noteq> None"
      using key_new key_old assms(2) by cases (auto simp: numeric_def)
  qed
  have ph: "pheap h 1 ?c" using assms(3) by (simp add: heap_inv_pheap)
  have A: "\<forall>c\<in>{2..?i}. c \<noteq> ?i \<longrightarrow> edge_ok ?h2 c"
  proof (intro ballI impI)
    fix c assume "c \<in> {2..?i}" "c \<noteq> ?i"
    then have c: "2 \<le> c" "c \<le> ?c" by simp_all
    then have p: "1 \<le> parent c" "parent c \<le> ?c" using parent_ge[of c] parent_less[of c] by simp_all
    have "edge_ok h c" using ph c p unfolding pheap_def by simp
    then show "edge_ok ?h2 c" using key_old[of c] key_old[OF p] c by (simp add: edge_ok_def)
  qed
  have B: "\<forall>c\<in>{2..?i}. parent c = ?i \<and> 2 \<le> ?i \<longrightarrow> js_ge (key ?h2 (parent ?i)) (key ?h2 c)"
  proof (intro ballI impI)
    fix c assume "c \<in> {2..?i}" and "parent c = ?i \<and> 2 \<le> ?i"
    then have False using parent_less[of c] by simp
    then show "js_ge (key ?h2 (parent ?i)) (key ?h2 c)" ..
  qed
  have sz: "?i \<le> size_of ?h2" using cs by simp
  have "pheap (h'\<lparr>count_of := ?c\<rparr>) 1 ?i"
    using float_pheap[OF objs num2 _ _ sz A B f] cs by simp
  then have "heap_inv (h'\<lparr>count_of := ?c, count_of := ?i\<rparr>)" by (rule heap_inv_count_update)
  moreover have "h'\<lparr>count_of := ?i\<rparr> = h'" using fr(1) by (cases h') simp
  ultimately have hi: "heap_inv h'" by simp
  have "\<forall>s\<in>set (slots ?h2 ?i). prio_of (mem ?h2) s \<noteq> None"
    using num2 by (auto simp: set_slots key_def)
  moreover have "set (slots h' ?i) = set (slots ?h2 ?i)"
    using ms by (auto dest: mset_eq_setD)
  ultimately have nu: "numeric h'"
    unfolding numeric_slots fr(1) using m' by simp
  have un: "unaliased h'"
    using unaliased_mset[of h' h] ms fr(2) cs assms(4) by simp
  from ins fr(1) lay nu hi un show ?thesis by blast
qed

subsection \<open>The shape of the heap is kept, heap property or not\<close>

lemma layout_live: "layout h \<Longrightarrow> objs_upto h (count_of h)"
  by (auto simp: layout_def intro: objs_upto_mono)

lemma removeMax_frame:
  assumes "layout h" "count_of h \<noteq> 0"
  shows "\<exists>v h' a. removeMax h = Inr (v, h') \<and> count_of h' = count_of h - 1 \<and>
           mem h' = mem h \<and> size_of h' = size_of h \<and>
           length (storage h') = length (storage h) \<and>
           js_get (storage h) 1 = Obj a \<and> js_get (storage h') (count_of h) = Obj a \<and>
           v = element (mem h a) \<and>
           (\<forall>k. k < 1 \<or> count_of h < k \<longrightarrow> js_get (storage h') k = js_get (storage h) k) \<and>
           (\<forall>n\<ge>count_of h. mset (slots h' n) = mset (slots h n)) \<and>
           layout h'"
proof -
  let ?c = "count_of h"
  let ?h1 = "swap_h h 1 ?c"
  let ?h2 = "?h1\<lparr>count_of := count_of ?h1 - 1\<rparr>"
  have c: "1 \<le> ?c" "?c \<le> size_of h" using assms by (simp_all add: layout_def)
  have objs: "objs_upto h ?c" using assms(1) by (rule layout_live)
  from objs_uptoD[OF objs, of 1] c obtain a where a: "js_get (storage h) 1 = Obj a" by auto
  have inr: "?c < int (length (storage h))" using objs_upto_length[OF objs] c by auto
  have o1: "objs_upto ?h1 ?c" using objs_upto_swap_h[OF objs, of 1 ?c] c by simp
  then have o2: "objs_upto ?h2 (count_of ?h2)" by (simp add: objs_upto_mono)
  from sink_frame[OF o2, of 1] obtain h3 where
    s: "sink ?h2 1 = Inr h3" and fr: "mem h3 = mem h" "size_of h3 = size_of h"
      "count_of h3 = ?c - 1" "length (storage h3) = length (storage ?h1)" and
    out: "\<forall>k. k < 1 \<or> ?c - 1 < k \<longrightarrow> js_get (storage h3) k = js_get (storage ?h1) k" and
    ms: "\<forall>n\<ge>?c - 1. mset (slots h3 n) = mset (slots ?h1 n)"
    by (auto simp: swap_h_def Let_def)
  have len: "length (storage h3) = length (storage h)"
    using fr(4) length_swap_h[of 1 h ?c] c inr by simp
  have last: "js_get (storage h3) ?c = Obj a"
    using out get_swap_h[of 1 ?c h ?c] c a by simp
  have out': "\<forall>k. k < 1 \<or> ?c < k \<longrightarrow> js_get (storage h3) k = js_get (storage h) k"
  proof (intro allI impI)
    fix k assume k: "k < 1 \<or> ?c < k"
    then have "js_get (storage ?h1) k = js_get (storage h) k"
      using get_swap_h[of 1 ?c h k] c by auto
    moreover have "js_get (storage h3) k = js_get (storage ?h1) k" using out k by auto
    ultimately show "js_get (storage h3) k = js_get (storage h) k" by simp
  qed
  have ms': "\<forall>n\<ge>?c. mset (slots h3 n) = mset (slots h n)"
  proof (intro allI impI)
    fix n assume n: "?c \<le> n"
    then have "mset (slots h3 n) = mset (slots ?h1 n)" using ms by simp
    also have "\<dots> = mset (slots h n)" using slots_swap_h[of 1 n ?c h] c n by simp
    finally show "mset (slots h3 n) = mset (slots h n)" .
  qed
  have lay: "layout h3"
    using layoutI[of h3 h] len fr ms' c assms(1) by simp
  have d: "deref h3 ?c = Inr a" using last by (rule deref_Obj)
  have "removeMax h = Inr (element (mem h a), h3)"
    using assms(2) s d fr(1) by (simp add: removeMax_def Let_def)
  then show ?thesis using fr(1-3) len a last out' ms' lay by simp
qed

lemma removeMax_times_frame:
  assumes "layout h" "int k \<le> count_of h"
  shows "\<exists>h'. removeMax_times k h = Inr h' \<and> count_of h' = count_of h - int k \<and>
           mem h' = mem h \<and> size_of h' = size_of h \<and>
           length (storage h') = length (storage h) \<and>
           (\<forall>j. j < 1 \<or> count_of h < j \<longrightarrow> js_get (storage h') j = js_get (storage h) j) \<and>
           (\<forall>m\<ge>count_of h. mset (slots h' m) = mset (slots h m)) \<and> layout h'"
  using assms
proof (induction k arbitrary: h)
  case 0
  then show ?case by simp
next
  case (Suc k)
  let ?c = "count_of h"
  have c: "?c \<noteq> 0" using Suc.prems(2) by auto
  from removeMax_frame[OF Suc.prems(1) c] obtain v h1 where
    r: "removeMax h = Inr (v, h1)" and fr: "count_of h1 = ?c - 1" "mem h1 = mem h"
      "size_of h1 = size_of h" "length (storage h1) = length (storage h)" and
    out: "\<forall>j. j < 1 \<or> ?c < j \<longrightarrow> js_get (storage h1) j = js_get (storage h) j" and
    ms: "\<forall>m\<ge>?c. mset (slots h1 m) = mset (slots h m)" and
    lay: "layout h1"
    by blast
  have k: "int k \<le> count_of h1" using Suc.prems(2) fr(1) by simp
  from Suc.IH[OF lay k] obtain h' where
    t: "removeMax_times k h1 = Inr h'" and fr': "count_of h' = count_of h1 - int k"
      "mem h' = mem h1" "size_of h' = size_of h1" "length (storage h') = length (storage h1)" and
    out': "\<forall>j. j < 1 \<or> count_of h1 < j \<longrightarrow> js_get (storage h') j = js_get (storage h1) j" and
    ms': "\<forall>m\<ge>count_of h1. mset (slots h' m) = mset (slots h1 m)" and
    lay': "layout h'"
    by blast
  have "removeMax_times (Suc k) h = Inr h'" using r t by simp
  moreover have "\<forall>j. j < 1 \<or> ?c < j \<longrightarrow> js_get (storage h') j = js_get (storage h) j"
    using out out' fr(1) by auto
  moreover have "\<forall>m\<ge>?c. mset (slots h' m) = mset (slots h m)"
    using ms ms' fr(1) by auto
  moreover have "count_of h' = ?c - int (Suc k)" using fr' fr by simp
  ultimately show ?case using fr fr' lay' by simp
qed

lemma sort_op_frame:
  assumes "layout h"
  shows "\<exists>h'. sort_op h = Inr (storage h', h') \<and>
           removeMax_times (nat (count_of h)) h = Inr h' \<and> count_of h' = 0 \<and>
           mem h' = mem h \<and> size_of h' = size_of h \<and>
           length (storage h') = length (storage h) \<and>
           (\<forall>j. j < 1 \<or> count_of h < j \<longrightarrow> js_get (storage h') j = js_get (storage h) j) \<and>
           (\<forall>m\<ge>count_of h. mset (slots h' m) = mset (slots h m)) \<and> layout h'"
proof -
  have c: "0 \<le> count_of h" using assms by (simp add: layout_def)
  then have k: "int (nat (count_of h)) \<le> count_of h" by simp
  from removeMax_times_frame[OF assms k] c obtain h' where
    t: "removeMax_times (nat (count_of h)) h = Inr h'" and c0: "count_of h' = 0" and
    rest: "mem h' = mem h" "size_of h' = size_of h" "length (storage h') = length (storage h)"
      "\<forall>j. j < 1 \<or> count_of h < j \<longrightarrow> js_get (storage h') j = js_get (storage h) j"
      "\<forall>m\<ge>count_of h. mset (slots h' m) = mset (slots h m)" "layout h'"
    by auto
  have "sort_op h = Inr (storage h', h')"
    using t by (simp add: sort_op_def Let_def sort_loop_times)
  with t c0 rest show ?thesis by blast
qed

subsection \<open>The constructors\<close>

lemma get_new_empty:
  assumes "1 \<le> i" "i \<le> sz"
  shows "js_get (storage (new_empty sz)) i = Obj (nat i)"
proof -
  have "nat i - 1 < nat sz" using assms by linarith
  then have "map Obj [1..<Suc (nat sz)] ! (nat i - 1) = Obj (1 + (nat i - 1))"
    by (simp del: upt_Suc)
  moreover have "nat i = Suc (nat i - 1)" using assms by linarith
  ultimately have "(Null # map Obj [1..<Suc (nat sz)]) ! nat i = Obj (nat i)"
    by (metis nth_Cons_Suc plus_1_eq_Suc)
  then show ?thesis using assms by (simp add: js_get_def new_empty_def del: upt_Suc)
qed

lemma new_empty_ok:
  assumes "0 \<le> sz"
  shows "layout (new_empty sz :: 'e MaxHeap)" "numeric (new_empty sz :: 'e MaxHeap)"
    "heap_inv (new_empty sz :: 'e MaxHeap)" "unaliased (new_empty sz :: 'e MaxHeap)"
proof -
  let ?h = "new_empty sz :: 'e MaxHeap"
  have fr: "count_of ?h = 0" "size_of ?h = sz" "int (length (storage ?h)) = sz + 1"
    using assms by (simp_all add: new_empty_def del: upt_Suc)
  show lay: "layout ?h"
    unfolding layout_def objs_upto_def using fr assms by (auto simp: get_new_empty)
  show "numeric ?h" "heap_inv ?h" by (simp_all add: numeric_def heap_inv_def fr)
  have "slots ?h sz = tl (storage ?h)" using slots_storage[OF fr(3)] .
  then have "slots ?h (size_of ?h) = map Obj [1..<Suc (nat sz)]"
    by (simp add: new_empty_def del: upt_Suc)
  then show "unaliased ?h"
    unfolding unaliased_def by (simp add: distinct_map inj_on_def del: upt_Suc)
qed

lemma new_fromArray_ok:
  assumes "array_ok m arr"
  shows "\<exists>h. new_fromArray m arr = Inr h \<and> mem h = m \<and>
           size_of h = int (length arr) - 1 \<and> count_of h = int (length arr) - 1 \<and>
           length (storage h) = length arr \<and> js_get (storage h) 0 = js_get arr 0 \<and>
           mset (tl (storage h)) = mset (tl arr) \<and>
           layout h \<and> numeric h \<and> heap_inv h"
proof -
  let ?n = "int (length arr) - 1"
  let ?h0 = "\<lparr>storage = arr, size_of = ?n, count_of = ?n, mem = m\<rparr>"
  have n: "0 \<le> ?n" using assms by (cases arr) (simp_all add: array_ok_def)
  have len: "int (length arr) = ?n + 1" by simp
  have sl: "slots ?h0 ?n = tl arr" using slots_storage[of ?h0 ?n] by simp
  have o0: "objs_upto ?h0 (count_of ?h0)"
    using assms sl by (simp add: objs_upto_slots array_ok_def)
  have n0: "numeric ?h0"
    using assms sl by (simp add: numeric_slots array_ok_def)
  from buildheap_ok[OF o0 n0] n obtain h where
    b: "buildheap ?h0 = Inr h" and fr: "mem h = m" "size_of h = ?n" "count_of h = ?n"
      "length (storage h) = length arr" and
    out: "\<forall>k. k < 1 \<or> ?n < k \<longrightarrow> js_get (storage h) k = js_get arr k" and
    ms: "\<forall>k\<ge>?n. mset (slots h k) = mset (slots ?h0 k)" and
    inv: "objs_upto h (count_of h)" "numeric h" "heap_inv h"
    by auto
  have "slots h ?n = tl (storage h)" using slots_storage[of h ?n] fr(4) by simp
  then have mt: "mset (tl (storage h)) = mset (tl arr)" using ms sl by auto
  have "layout h" using fr inv(1) n by (simp add: layout_def)
  moreover have "js_get (storage h) 0 = js_get arr 0" using out by simp
  ultimately show ?thesis using b fr mt inv by (simp add: new_fromArray_def)
qed

subsection \<open>Sequences of calls\<close>

lemma buildheap_loop_sink_each: "buildheap_loop h i = sink_each h (rev [1..i])"
proof (induction h i rule: buildheap_loop.induct)
  case (1 h i)
  show ?case
  proof (cases "1 \<le> i")
    case True
    then have "rev [1..i] = i # rev [1..i - 1]" by (subst upto_rec2) simp_all
    then show ?thesis
      using True "1.IH"[OF True]
      by (subst buildheap_loop.simps) (simp split: sum.splits)
  next
    case False
    then show ?thesis by (subst buildheap_loop.simps) simp
  qed
qed

text \<open>One public call keeps the shape of the heap, whatever it does.\<close>

lemma call_op_layout:
  assumes "layout h"
  shows "layout (call_op h c) \<and> size_of (call_op h c) = size_of h \<and>
         length (storage (call_op h c)) = length (storage h) \<and>
         js_get (storage (call_op h c)) 0 = js_get (storage h) 0 \<and>
         mset (slots (call_op h c) (size_of h)) = mset (slots h (size_of h))"
proof (cases c)
  case (Insert p e)
  have cs: "0 \<le> count_of h" "count_of h \<le> size_of h" using assms by (simp_all add: layout_def)
  show ?thesis
  proof (cases "count_of h < size_of h")
    case True
    from insert_frame[OF assms True, of p e] obtain h' where
      "insert_op h p e = Inr h'" "size_of h' = size_of h"
      "length (storage h') = length (storage h)"
      "\<forall>k. k < 1 \<or> count_of h + 1 < k \<longrightarrow> js_get (storage h') k = js_get (storage h) k"
      "\<forall>m\<ge>count_of h + 1. mset (slots h' m) = mset (slots h m)" "layout h'"
      by blast
    then show ?thesis using Insert True by simp
  next
    case False
    then have "insert_op h p e = Inl (HeapFull, h)"
      by (simp add: insert_op_def inSizeBounds_def)
    then show ?thesis using Insert assms by simp
  qed
next
  case RemoveMax
  show ?thesis
  proof (cases "count_of h = 0")
    case True
    then show ?thesis using RemoveMax assms by (simp add: removeMax_def)
  next
    case False
    have cs: "count_of h \<le> size_of h" using assms by (simp add: layout_def)
    from removeMax_frame[OF assms False] obtain v h' where
      "removeMax h = Inr (v, h')" "size_of h' = size_of h"
      "length (storage h') = length (storage h)"
      "\<forall>k. k < 1 \<or> count_of h < k \<longrightarrow> js_get (storage h') k = js_get (storage h) k"
      "\<forall>n\<ge>count_of h. mset (slots h' n) = mset (slots h n)" "layout h'"
      by blast
    then show ?thesis using RemoveMax cs by simp
  qed
next
  case Count
  then show ?thesis using assms by (simp add: count_op_def)
next
  case Sort
  have cs: "count_of h \<le> size_of h" using assms by (simp add: layout_def)
  from sort_op_frame[OF assms] obtain h' where
    "sort_op h = Inr (storage h', h')" "size_of h' = size_of h"
    "length (storage h') = length (storage h)"
    "\<forall>k. k < 1 \<or> count_of h < k \<longrightarrow> js_get (storage h') k = js_get (storage h) k"
    "\<forall>n\<ge>count_of h. mset (slots h' n) = mset (slots h n)" "layout h'"
    by blast
  then show ?thesis using Sort cs by simp
qed

lemma calls_layout: "layout h \<Longrightarrow> layout (calls h cs)"
  unfolding calls_def by (induction cs arbitrary: h) (simp_all add: call_op_layout)

text \<open>With no record object in two slots, one public call keeps the heap property.\<close>

lemma call_op_valid:
  assumes "layout h" "numeric h" "heap_inv h" "unaliased h"
  shows "layout (call_op h c) \<and> numeric (call_op h c) \<and> heap_inv (call_op h c) \<and>
         unaliased (call_op h c)"
proof -
  have cs: "0 \<le> count_of h" "count_of h \<le> size_of h" using assms(1) by (simp_all add: layout_def)
  have lay: "layout (call_op h c)" and sz: "size_of (call_op h c) = size_of h"
    and ms: "mset (slots (call_op h c) (size_of h)) = mset (slots h (size_of h))"
    using call_op_layout[OF assms(1), of c] by simp_all
  have un: "unaliased (call_op h c)" using unaliased_mset[OF ms sz] assms(4) by simp
  have "numeric (call_op h c) \<and> heap_inv (call_op h c)"
  proof (cases c)
    case (Insert p e)
    show ?thesis
    proof (cases "count_of h < size_of h")
      case True
      from insert_ok[OF assms True, of p e] show ?thesis using Insert by auto
    next
      case False
      then have "insert_op h p e = Inl (HeapFull, h)"
        by (simp add: insert_op_def inSizeBounds_def)
      then show ?thesis using Insert assms by simp
    qed
  next
    case RemoveMax
    show ?thesis
    proof (cases "count_of h = 0")
      case True
      then show ?thesis using RemoveMax assms by (simp add: removeMax_def)
    next
      case False
      then have "1 \<le> count_of h" using cs by simp
      from removeMax_ok[OF layout_live[OF assms(1)] assms(2,3) this]
      show ?thesis using RemoveMax by auto
    qed
  next
    case Count
    then show ?thesis using assms by (simp add: count_op_def)
  next
    case Sort
    from sort_op_frame[OF assms(1)] obtain h' where
      "sort_op h = Inr (storage h', h')" "count_of h' = 0" by blast
    then show ?thesis using Sort by (simp add: numeric_def heap_inv_def)
  qed
  with lay un show ?thesis by simp
qed

lemma calls_valid:
  assumes "layout h" "numeric h" "heap_inv h" "unaliased h"
  shows "layout (calls h cs) \<and> numeric (calls h cs) \<and> heap_inv (calls h cs) \<and>
         unaliased (calls h cs)"
  using assms unfolding calls_def
proof (induction cs arbitrary: h)
  case Nil
  then show ?case by simp
next
  case (Cons c cs)
  from call_op_valid[OF Cons.prems, of c] Cons.IH[of "call_op h c"] show ?case by simp
qed

lemma inserts_valid:
  assumes "layout h" "numeric h" "heap_inv h" "unaliased h" "inserts h ps = Inr h'"
  shows "layout h' \<and> numeric h' \<and> heap_inv h' \<and> unaliased h'"
  using assms
proof (induction ps arbitrary: h)
  case Nil
  then show ?case by simp
next
  case (Cons pe ps)
  obtain p e where pe: "pe = (p, e)" by (cases pe)
  from Cons.prems(5) obtain h1 where i1: "insert_op h p e = Inr h1" and r: "inserts h1 ps = Inr h'"
    by (auto simp: pe split: sum.splits)
  have "call_op h (Insert p e) = h1" using i1 by simp
  with call_op_valid[OF Cons.prems(1-4), of "Insert p e"]
  have "layout h1" "numeric h1" "heap_inv h1" "unaliased h1" by simp_all
  from Cons.IH[OF this r] show ?case .
qed

lemma drain_ok:
  assumes "objs_upto h (count_of h)" "numeric h" "heap_inv h" "int k \<le> count_of h"
  shows "\<exists>out h'. drain k h = Inr (out, h') \<and> length out = k \<and>
           count_of h' = count_of h - int k \<and>
           sorted_wrt (\<lambda>x y. js_ge x y) (map fst out) \<and>
           (\<forall>x\<in>set (map fst out). js_ge (key h 1) x)"
  using assms
proof (induction k arbitrary: h)
  case 0
  then show ?case by simp
next
  case (Suc k)
  let ?c = "count_of h"
  have c: "1 \<le> ?c" using Suc.prems(4) by simp
  from removeMax_ok[OF Suc.prems(1-3) c] obtain v h1 a where
    r: "removeMax h = Inr (v, h1)" and fr: "count_of h1 = ?c - 1" "mem h1 = mem h" and
    a: "js_get (storage h) 1 = Obj a" "js_get (storage h1) ?c = Obj a" and
    live: "mset (slots h ?c) = add_mset (Obj a) (mset (slots h1 (count_of h1)))" and
    inv: "objs_upto h1 (count_of h1)" "numeric h1" "heap_inv h1"
    by blast
  have k: "int k \<le> count_of h1" using Suc.prems(4) fr(1) by simp
  from Suc.IH[OF inv k] obtain out h' where
    d: "drain k h1 = Inr (out, h')" and len: "length out = k" and
    cnt: "count_of h' = count_of h1 - int k" and
    srt: "sorted_wrt (\<lambda>x y. js_ge x y) (map fst out)" and
    bnd: "\<forall>x\<in>set (map fst out). js_ge (key h1 1) x"
    by blast
  have root: "key h 1 \<noteq> None" using Suc.prems(2) c by (auto simp: numeric_def)
  have ph: "pheap h 1 ?c" using Suc.prems(3) by (simp add: heap_inv_pheap)
  have ex: "key h1 ?c = key h 1" using a fr(2) by (simp add: key_def)
  have bnd': "js_ge (key h 1) x" if "x \<in> set (map fst out)" for x
  proof -
    from that len have "1 \<le> count_of h1" using k by (cases out) auto
    then have "js_get (storage h1) 1 \<in> set (slots h1 (count_of h1))" by (simp add: set_slots)
    then have "js_get (storage h1) 1 \<in># mset (slots h ?c)" by (simp add: live)
    then have "js_get (storage h1) 1 \<in> js_get (storage h) ` {1..?c}" by (simp add: set_slots)
    then obtain j where j: "1 \<le> j" "j \<le> ?c" "key h1 1 = key h j"
      using fr(2) by (auto simp: key_def)
    have "js_ge (key h 1) (key h1 1)" using root_max[OF ph root j(1,2)] j(3) by simp
    moreover have "js_ge (key h1 1) x" using bnd that by blast
    ultimately show ?thesis by (rule js_ge_trans)
  qed
  have "drain (Suc k) h = Inr ((key h1 ?c, v) # out, h')" using r d by simp
  moreover have "sorted_wrt (\<lambda>x y. js_ge x y) (map fst ((key h1 ?c, v) # out))"
    using srt bnd' ex by simp
  moreover have "\<forall>x\<in>set (map fst ((key h1 ?c, v) # out)). js_ge (key h 1) x"
    using bnd' ex root by (simp add: js_ge_refl)
  moreover have "count_of h' = ?c - int (Suc k)" using cnt fr(1) by simp
  ultimately show ?case using len by simp
qed

subsection \<open>Priorities as numbers\<close>

lemma defined_sorted:
  assumes "\<forall>x\<in>set xs. x \<noteq> None" "sorted_wrt (\<lambda>x y. js_ge y x) xs"
  shows "\<exists>ps. xs = map Some ps \<and> sorted ps"
proof (intro exI conjI)
  show "xs = map Some (map the xs)" using assms(1) by (induction xs) auto
  have le: "js_ge y x \<Longrightarrow> the x \<le> the y" for x y :: "int option"
    by (cases x; cases y) auto
  have "sorted_wrt (\<lambda>x y. the x \<le> the y) xs"
    by (rule sorted_wrt_mono_rel[OF _ assms(2)]) (rule le)
  then show "sorted (map the xs)" by (simp add: sorted_wrt_map)
qed

lemma defined_sorted_desc:
  assumes "\<forall>x\<in>set xs. x \<noteq> None" "sorted_wrt (\<lambda>x y. js_ge x y) xs"
  shows "\<exists>ps. xs = map Some ps \<and> sorted_wrt (\<lambda>a b. b \<le> a) ps"
proof (intro exI conjI)
  show "xs = map Some (map the xs)" using assms(1) by (induction xs) auto
  have le: "js_ge x y \<Longrightarrow> the y \<le> the x" for x y :: "int option"
    by (cases x; cases y) auto
  have "sorted_wrt (\<lambda>x y. the y \<le> the x) xs"
    by (rule sorted_wrt_mono_rel[OF _ assms(2)]) (rule le)
  then show "sorted_wrt (\<lambda>a b. b \<le> a) (map the xs)" by (simp add: sorted_wrt_map)
qed

lemma js_get_0: "xs \<noteq> [] \<Longrightarrow> js_get xs 0 = hd xs"
  by (cases xs) (simp_all add: js_get_def)

lemma sort_op_sorted:
  assumes "layout h" "numeric h" "heap_inv h"
  shows "\<exists>h' ps. sort_op h = Inr (storage h', h') \<and>
           removeMax_times (nat (count_of h)) h = Inr h' \<and> count_of h' = 0 \<and>
           mem h' = mem h \<and> size_of h' = size_of h \<and>
           length (storage h') = length (storage h) \<and>
           js_get (storage h') 0 = js_get (storage h) 0 \<and>
           (\<forall>m\<ge>count_of h. mset (slots h' m) = mset (slots h m)) \<and>
           prios h' (count_of h) = map Some ps \<and> sorted ps"
proof -
  let ?c = "count_of h"
  have c: "0 \<le> ?c" using assms(1) by (simp add: layout_def)
  from sort_op_ok[OF layout_live[OF assms(1)] assms(2,3) c] obtain h' where
    s: "sort_op h = Inr (storage h', h')" and fr: "count_of h' = 0" "mem h' = mem h"
      "size_of h' = size_of h" "length (storage h') = length (storage h)" and
    out: "\<forall>j. j < 1 \<or> ?c < j \<longrightarrow> js_get (storage h') j = js_get (storage h) j" and
    ms: "\<forall>m\<ge>?c. mset (slots h' m) = mset (slots h m)" and
    srt: "sorted_wrt (\<lambda>x y. js_ge y x) (prios h' ?c)"
    by blast
  from sort_op_frame[OF assms(1)] s have t: "removeMax_times (nat ?c) h = Inr h'" by auto
  have "set (slots h' ?c) = set (slots h ?c)" using ms by (auto dest: mset_eq_setD)
  then have "\<forall>x\<in>set (prios h' ?c). x \<noteq> None"
    using assms(2) fr(2) by (simp add: prios_slots numeric_slots)
  from defined_sorted[OF this srt] obtain ps where
    "prios h' ?c = map Some ps" "sorted ps" by blast
  moreover have "js_get (storage h') 0 = js_get (storage h) 0" using out by simp
  ultimately show ?thesis using s t fr ms by blast
qed

section \<open>The claims\<close>

text \<open>
  C1. For an array with a slot 0 followed by references to records with numeric
  priorities, the static \<open>heapsort\<close> returns, and the array it worked on is the caller's:
  same length, same slot 0, the same references at indices \<open>1..n\<close> as a multiset, the
  record objects untouched, and the priorities at \<open>1..n\<close> in non-decreasing order.
\<close>

theorem heapsort_sorts_in_place:
  assumes "array_ok m array"
  shows "\<exists>h ps. heapsort m array = Inr h \<and> mem h = m \<and>
           length (storage h) = length array \<and> hd (storage h) = hd array \<and>
           mset (tl (storage h)) = mset (tl array) \<and>
           map (prio_of m) (tl (storage h)) = map Some ps \<and> sorted ps"
proof -
  let ?n = "int (length array) - 1"
  from new_fromArray_ok[OF assms] obtain h1 where
    b: "new_fromArray m array = Inr h1" and fr: "mem h1 = m" "count_of h1 = ?n"
      "length (storage h1) = length array" "js_get (storage h1) 0 = js_get array 0"
      "mset (tl (storage h1)) = mset (tl array)" and
    inv: "layout h1" "numeric h1" "heap_inv h1"
    by blast
  from sort_op_sorted[OF inv] obtain h ps where
    s: "sort_op h1 = Inr (storage h, h)" and fr': "mem h = mem h1"
      "length (storage h) = length (storage h1)"
      "js_get (storage h) 0 = js_get (storage h1) 0" and
    ms: "\<forall>k\<ge>count_of h1. mset (slots h k) = mset (slots h1 k)" and
    srt: "prios h (count_of h1) = map Some ps" "sorted ps"
    by blast
  have ne: "array \<noteq> []" "storage h \<noteq> []" using assms fr fr' by (auto simp: array_ok_def)
  have sl: "slots h ?n = tl (storage h)" "slots h1 ?n = tl (storage h1)"
    using slots_storage[of h ?n] slots_storage[of h1 ?n] fr fr' by simp_all
  have "heapsort m array = Inr h" using b s by (simp add: heapsort_def constructor_def)
  moreover have "hd (storage h) = hd array" using fr(4) fr'(3) ne by (simp add: js_get_0)
  moreover have "mset (slots h ?n) = mset (slots h1 ?n)" using ms fr(2) by simp
  then have "mset (tl (storage h)) = mset (tl array)" using sl fr(5) by simp
  moreover have "map (prio_of m) (tl (storage h)) = map Some ps"
    using srt(1) sl fr fr' by (simp add: prios_slots)
  ultimately show ?thesis using fr fr' srt(2) by auto
qed

theorem heapsort_sorts_in_place_witness:
  "array_ok ex_mem [Null, Obj 3, Obj 1, Obj 2] \<and>
   (\<exists>h ps. heapsort ex_mem [Null, Obj 3, Obj 1, Obj 2] = Inr h \<and> mem h = ex_mem \<and>
      length (storage h) = length [Null, Obj 3, Obj 1, Obj 2] \<and>
      hd (storage h) = hd [Null, Obj 3, Obj 1, Obj 2] \<and>
      mset (tl (storage h)) = mset (tl [Null, Obj 3, Obj 1, Obj 2]) \<and>
      map (prio_of ex_mem) (tl (storage h)) = map Some ps \<and> sorted ps) \<and>
   map_sum fst storage (heapsort ex_mem [Null, Obj 3, Obj 1, Obj 2])
     = Inr [Null, Obj 1, Obj 2, Obj 3]"
proof -
  have a: "array_ok ex_mem [Null, Obj 3, Obj 1, Obj 2]" by code_simp
  have b: "map_sum fst storage (heapsort ex_mem [Null, Obj 3, Obj 1, Obj 2])
     = Inr [Null, Obj 1, Obj 2, Obj 3]" by code_simp
  from a heapsort_sorts_in_place[OF a] b show ?thesis by blast
qed

text \<open>
  C2 as the specification states it: the heap property holds for every heap reachable
  from a construction by calls of \<open>insert\<close>, \<open>removeMax\<close> and \<open>sort\<close>. The array
  \<open>[_, r, r, x, y]\<close> holds one record \<open>r\<close> (priority 10) in two slots, then records of
  priority 9 and 8. It is a well-formed input and the constructor returns a heap. After
  \<open>removeMax()\<close> the slot just past the live region refers to \<open>r\<close>, which is also the
  root; \<open>insert(0, _)\<close> writes priority 0 into that object, and the root now has
  priority 0 above children of priority 8 and 9.
\<close>

theorem heap_inv_alias_counterexample:
  "array_ok ex_mem [Null, Obj 10, Obj 10, Obj 9, Obj 8] \<and>
   (case new_fromArray ex_mem [Null, Obj 10, Obj 10, Obj 9, Obj 8] of
      Inl err \<Rightarrow> False
    | Inr h \<Rightarrow> \<not> heap_inv (calls h [RemoveMax, Insert 0 (Some 0)]))"
  by code_simp

text \<open>
  C2 as the code has it: the heap property holds after every public call on a heap
  that started from the empty constructor (capacity at least 0), or from an array with
  numeric priorities in which no record object occurs twice (for which the constructor
  returns).
\<close>

theorem heap_inv_reachable:
  "(0 \<le> sz \<longrightarrow> heap_inv (calls (new_empty sz) cs)) \<and>
   (array_ok m arr \<and> distinct (tl arr) \<longrightarrow>
      (\<exists>h0. new_fromArray m arr = Inr h0 \<and> heap_inv h0 \<and> heap_inv (calls h0 cs)))"
proof (intro conjI impI)
  assume "0 \<le> sz"
  from calls_valid[OF new_empty_ok[OF this]] show "heap_inv (calls (new_empty sz) cs)" by blast
next
  assume a: "array_ok m arr \<and> distinct (tl arr)"
  from new_fromArray_ok[of m arr] a obtain h0 where
    b: "new_fromArray m arr = Inr h0" and ms: "mset (tl (storage h0)) = mset (tl arr)" and
    inv: "layout h0" "numeric h0" "heap_inv h0"
    by blast
  have "distinct (tl (storage h0))" using a ms by (metis mset_eq_imp_distinct_iff)
  then have "unaliased h0" by (simp add: unaliased_def layout_slots[OF inv(1)])
  from calls_valid[OF inv this] b inv(3)
  show "\<exists>h0. new_fromArray m arr = Inr h0 \<and> heap_inv h0 \<and> heap_inv (calls h0 cs)" by blast
qed

theorem heap_inv_reachable_witness:
  "(0::int) \<le> 4 \<and>
   heap_inv (calls (new_empty 4)
     [Insert 5 (Some (1::nat)), Insert 8 (Some 2), RemoveMax, Insert 1 (Some 3), Sort, Insert 2 None]) \<and>
   array_ok ex_mem [Null, Obj 10, Obj 7, Obj 9, Obj 8] \<and>
   distinct (tl [Null, Obj 10, Obj 7, Obj 9, Obj 8]) \<and>
   (\<exists>h0. new_fromArray ex_mem [Null, Obj 10, Obj 7, Obj 9, Obj 8] = Inr h0 \<and> heap_inv h0 \<and>
      heap_inv (calls h0 [RemoveMax, Insert 0 (Some 0)]))"
proof -
  have a: "(0::int) \<le> 4" by simp
  have b: "array_ok ex_mem [Null, Obj 10, Obj 7, Obj 9, Obj 8]" by code_simp
  have c: "distinct (tl [Null, Obj 10, Obj 7, Obj 9, Obj 8])" by simp
  from a b c
    heap_inv_reachable[of 4
      "[Insert 5 (Some (1::nat)), Insert 8 (Some 2), RemoveMax, Insert 1 (Some 3), Sort, Insert 2 None]"
      ex_mem "[Null, Obj 10, Obj 7, Obj 9, Obj 8]"]
    heap_inv_reachable[of 4 "[RemoveMax, Insert 0 (Some 0)]"
      ex_mem "[Null, Obj 10, Obj 7, Obj 9, Obj 8]"]
  show ?thesis by blast
qed

text \<open>
  C3. Start from the empty constructor (capacity at least 0), let a sequence of
  \<open>insert\<close> calls all succeed, then call \<open>removeMax\<close> \<open>k\<close> times, \<open>k\<close> at most the
  count: every call returns, and the priorities of the records extracted, in the order
  of the calls, are numbers in non-increasing order. Inserting priorities 5, 3, 8, 1 into
  a capacity-4 heap and calling \<open>removeMax\<close> four times returns the elements of the
  records with priorities 8, 5, 3, 1, in that order.
\<close>

theorem max_extraction_order:
  "(0 \<le> sz \<and> inserts (new_empty sz) ps = Inr h \<and> int k \<le> count_of h \<longrightarrow>
      (\<exists>out h' qs. drain k h = Inr (out, h') \<and> length out = k \<and>
         count_of h' = count_of h - int k \<and>
         map fst out = map Some qs \<and> sorted_wrt (\<lambda>a b. b \<le> a) qs)) \<and>
   map_sum fst fst
     (case inserts (new_empty 4)
             [(5, Some ''e5''), (3, Some ''e3''), (8, Some ''e8''), (1, Some ''e1'')] of
        Inl err \<Rightarrow> Inl err
      | Inr h4 \<Rightarrow> drain 4 h4)
     = Inr [(Some 8, Some ''e8''), (Some 5, Some ''e5''),
            (Some 3, Some ''e3''), (Some 1, Some ''e1'')]"
proof (intro conjI impI)
  assume a: "0 \<le> sz \<and> inserts (new_empty sz) ps = Inr h \<and> int k \<le> count_of h"
  then have sz: "0 \<le> sz" and ins: "inserts (new_empty sz) ps = Inr h"
    and k: "int k \<le> count_of h" by simp_all
  from inserts_valid[OF new_empty_ok[OF sz] ins]
  have inv: "layout h" "numeric h" "heap_inv h" by simp_all
  from drain_ok[OF layout_live[OF inv(1)] inv(2,3) k] obtain out h' where
    d: "drain k h = Inr (out, h')" "length out = k" "count_of h' = count_of h - int k" and
    srt: "sorted_wrt (\<lambda>x y. js_ge x y) (map fst out)" and
    bnd: "\<forall>x\<in>set (map fst out). js_ge (key h 1) x"
    by blast
  have "\<forall>x\<in>set (map fst out). x \<noteq> None" using bnd js_ge_defined by blast
  from defined_sorted_desc[OF this srt] obtain qs where
    "map fst out = map Some qs" "sorted_wrt (\<lambda>a b. b \<le> a) qs" by blast
  with d show "\<exists>out h' qs. drain k h = Inr (out, h') \<and> length out = k \<and>
         count_of h' = count_of h - int k \<and>
         map fst out = map Some qs \<and> sorted_wrt (\<lambda>a b. b \<le> a) qs" by blast
next
  show "map_sum fst fst
     (case inserts (new_empty 4)
             [(5, Some ''e5''), (3, Some ''e3''), (8, Some ''e8''), (1, Some ''e1'')] of
        Inl err \<Rightarrow> Inl err
      | Inr h4 \<Rightarrow> drain 4 h4)
     = Inr [(Some 8, Some ''e8''), (Some 5, Some ''e5''),
            (Some 3, Some ''e3''), (Some 1, Some ''e1'')]"
    by code_simp
qed

theorem max_extraction_order_witness:
  "(0::int) \<le> 4 \<and>
   (\<exists>h. inserts (new_empty 4) [(5, Some ''e5''), (3, Some ''e3''), (8, Some ''e8'')] = Inr h \<and>
      int 2 \<le> count_of h \<and>
      (\<exists>out h' qs. drain 2 h = Inr (out, h') \<and> length out = 2 \<and>
         count_of h' = count_of h - int 2 \<and>
         map fst out = map Some qs \<and> sorted_wrt (\<lambda>a b. b \<le> a) qs))"
proof -
  have "case inserts (new_empty 4) [(5, Some ''e5''), (3, Some ''e3''), (8, Some ''e8'')] of
          Inl err \<Rightarrow> False | Inr h \<Rightarrow> int 2 \<le> count_of h"
    by code_simp
  then obtain h where
    h: "inserts (new_empty 4) [(5, Some ''e5''), (3, Some ''e3''), (8, Some ''e8'')] = Inr h"
      "int 2 \<le> count_of h"
    by (auto split: sum.splits)
  from h max_extraction_order[of 4 "[(5, Some ''e5''), (3, Some ''e3''), (8, Some ''e8'')]" h 2]
  show ?thesis by auto
qed

text \<open>
  C4. On a heap whose count equals its capacity, \<open>insert\<close> throws the "Heap is full"
  error, and the heap it leaves behind is the heap it found: count, storage and every
  record are what they were.
\<close>

theorem insert_full_no_effect:
  assumes "count_of h = size_of h"
  shows "insert_op h p e = Inl (HeapFull, h)"
  using assms by (simp add: insert_op_def inSizeBounds_def)

theorem insert_full_no_effect_witness:
  "count_of (calls (new_empty 2) [Insert 5 (Some (1::nat)), Insert 3 (Some 2)])
     = size_of (calls (new_empty 2) [Insert 5 (Some (1::nat)), Insert 3 (Some 2)]) \<and>
   insert_op (calls (new_empty 2) [Insert 5 (Some (1::nat)), Insert 3 (Some 2)]) 8 (Some 3)
     = Inl (HeapFull, calls (new_empty 2) [Insert 5 (Some (1::nat)), Insert 3 (Some 2)])"
proof -
  have full: "count_of (calls (new_empty 2) [Insert 5 (Some (1::nat)), Insert 3 (Some 2)])
     = size_of (calls (new_empty 2) [Insert 5 (Some (1::nat)), Insert 3 (Some 2)])"
    by code_simp
  from full insert_full_no_effect[OF full] show ?thesis by blast
qed

text \<open>
  C5. On a heap with count 0, \<open>removeMax\<close> returns \<open>undefined\<close> (it does not throw)
  and leaves the heap, its count included, as it was.
\<close>

theorem removeMax_empty:
  assumes "count_of h = 0"
  shows "removeMax h = Inr (None, h)"
  using assms by (simp add: removeMax_def)

theorem removeMax_empty_witness:
  "count_of (new_empty 3 :: nat MaxHeap) = 0 \<and>
   removeMax (new_empty 3 :: nat MaxHeap) = Inr (None, new_empty 3)"
proof -
  have c: "count_of (new_empty 3 :: nat MaxHeap) = 0" by (simp add: new_empty_def)
  from c removeMax_empty[OF c] show ?thesis by blast
qed

text \<open>
  C6. \<open>count()\<close> returns \<open>_count\<close> and changes nothing; the count is 0 right after
  the empty constructor; and on every heap of the shape the constructors produce,
  \<open>sort\<close> returns with the count at 0, \<open>insert\<close> with room left returns with the count
  one higher, and \<open>removeMax\<close> on a non-empty heap returns with the count one lower.
\<close>

theorem count_consistency:
  "count_op h = (count_of h, h) \<and>
   map_sum fst count_of (constructor sz None m :: ('e, 'e MaxHeap) result)
     = Inr 0 \<and>
   (layout h \<longrightarrow>
      (\<exists>h'. sort_op h = Inr (storage h', h') \<and> count_of h' = 0) \<and>
      (count_of h < size_of h \<longrightarrow>
         (\<exists>h'. insert_op h p e = Inr h' \<and> count_of h' = count_of h + 1)) \<and>
      (count_of h \<noteq> 0 \<longrightarrow>
         (\<exists>v h'. removeMax h = Inr (v, h') \<and> count_of h' = count_of h - 1)))"
proof (intro conjI impI)
  show "count_op h = (count_of h, h)" by (simp add: count_op_def)
  show "map_sum fst count_of (constructor sz None m :: ('e, 'e MaxHeap) result) = Inr 0"
    by (simp add: constructor_def new_empty_def)
next
  assume "layout h"
  from sort_op_frame[OF this]
  show "\<exists>h'. sort_op h = Inr (storage h', h') \<and> count_of h' = 0" by blast
next
  assume "layout h" "count_of h < size_of h"
  from insert_frame[OF this, of p e]
  show "\<exists>h'. insert_op h p e = Inr h' \<and> count_of h' = count_of h + 1" by blast
next
  assume "layout h" "count_of h \<noteq> 0"
  from removeMax_frame[OF this]
  show "\<exists>v h'. removeMax h = Inr (v, h') \<and> count_of h' = count_of h - 1" by blast
qed

theorem count_consistency_witness:
  "layout (calls (new_empty 2) [Insert 5 (Some (1::nat))]) \<and>
   count_of (calls (new_empty 2) [Insert 5 (Some (1::nat))])
     < size_of (calls (new_empty 2) [Insert 5 (Some (1::nat))]) \<and>
   count_of (calls (new_empty 2) [Insert 5 (Some (1::nat))]) \<noteq> 0 \<and>
   (\<exists>h'. sort_op (calls (new_empty 2) [Insert 5 (Some (1::nat))]) = Inr (storage h', h') \<and>
      count_of h' = 0) \<and>
   (\<exists>h'. insert_op (calls (new_empty 2) [Insert 5 (Some (1::nat))]) 3 (Some 2) = Inr h' \<and>
      count_of h' = count_of (calls (new_empty 2) [Insert 5 (Some (1::nat))]) + 1) \<and>
   (\<exists>v h'. removeMax (calls (new_empty 2) [Insert 5 (Some (1::nat))]) = Inr (v, h') \<and>
      count_of h' = count_of (calls (new_empty 2) [Insert 5 (Some (1::nat))]) - 1)"
proof -
  let ?h = "calls (new_empty 2) [Insert 5 (Some (1::nat))]"
  have a: "layout ?h" by code_simp
  have b: "count_of ?h < size_of ?h" by code_simp
  have c: "count_of ?h \<noteq> 0" by code_simp
  from a b c count_consistency[of ?h "Some 2" ex_mem 3 "Some 2"] show ?thesis by blast
qed

text \<open>
  C7. On a heap of the right shape that satisfies the heap property, with \<open>n\<close> live
  records with numeric priorities, \<open>sort\<close> returns the storage array of the heap it
  leaves; that heap is the one \<open>n\<close> calls of \<open>removeMax\<close> produce, its count is 0, the
  record objects are untouched, and the indices \<open>1..n\<close> hold the references they held
  before (as a multiset) with priorities in ascending order.
\<close>

theorem sort_op_ascending:
  assumes "layout h" "numeric h" "heap_inv h"
  shows "\<exists>h' ps. sort_op h = Inr (storage h', h') \<and>
           removeMax_times (nat (count_of h)) h = Inr h' \<and> count_of h' = 0 \<and>
           mem h' = mem h \<and>
           mset (slots h' (count_of h)) = mset (slots h (count_of h)) \<and>
           prios h' (count_of h) = map Some ps \<and> sorted ps"
proof -
  from sort_op_sorted[OF assms] obtain h' ps where
    "sort_op h = Inr (storage h', h')" "removeMax_times (nat (count_of h)) h = Inr h'"
    "count_of h' = 0" "mem h' = mem h"
    "\<forall>m\<ge>count_of h. mset (slots h' m) = mset (slots h m)"
    "prios h' (count_of h) = map Some ps" "sorted ps"
    by blast
  then show ?thesis by auto
qed

theorem sort_op_ascending_witness:
  "layout (calls (new_empty 4) [Insert 5 (Some (1::nat)), Insert 3 (Some 2), Insert 8 (Some 3)]) \<and>
   numeric (calls (new_empty 4) [Insert 5 (Some (1::nat)), Insert 3 (Some 2), Insert 8 (Some 3)]) \<and>
   heap_inv (calls (new_empty 4) [Insert 5 (Some (1::nat)), Insert 3 (Some 2), Insert 8 (Some 3)]) \<and>
   (\<exists>h' ps.
      sort_op (calls (new_empty 4) [Insert 5 (Some (1::nat)), Insert 3 (Some 2), Insert 8 (Some 3)])
        = Inr (storage h', h') \<and>
      count_of h' = 0 \<and> prios h' 3 = map Some ps \<and> sorted ps) \<and>
   map_sum fst (\<lambda>(s, h'). prios h' 3)
     (sort_op (calls (new_empty 4) [Insert 5 (Some (1::nat)), Insert 3 (Some 2), Insert 8 (Some 3)]))
     = Inr [Some 3, Some 5, Some 8]"
proof -
  let ?h = "calls (new_empty 4) [Insert 5 (Some (1::nat)), Insert 3 (Some 2), Insert 8 (Some 3)]"
  have "(0::int) \<le> 4" by simp
  from calls_valid[OF new_empty_ok[OF this]]
  have a: "layout ?h" and b: "numeric ?h" and c: "heap_inv ?h" by blast+
  have n: "count_of ?h = 3" by code_simp
  have d: "map_sum fst (\<lambda>(s, h'). prios h' 3) (sort_op ?h) = Inr [Some 3, Some 5, Some 8]"
    by code_simp
  from sort_op_ascending[OF a b c] have
    "\<exists>h' ps. sort_op ?h = Inr (storage h', h') \<and> count_of h' = 0 \<and>
       prios h' 3 = map Some ps \<and> sorted ps"
    unfolding n by blast
  with a b c d show ?thesis by blast
qed

text \<open>
  C8. Construction from an array with a slot 0 followed by references to records with
  numeric priorities returns a heap whose storage is that array (same length, same
  slot 0, the same references at \<open>1..n\<close>, record objects untouched) after \<open>sink(i)\<close> has
  run for \<open>i = \<lfloor>n/2\<rfloor>, \<dots>, 1\<close>, with capacity and count both \<open>length - 1\<close>. The heap
  property holds and the record at index 1 has a priority at least that of every input
  record. Built from priorities 5, 1, 9, 3, index 1 holds priority 9.
\<close>

theorem fromArray_builds_heap:
  "(array_ok m arr \<longrightarrow>
      (\<exists>h. constructor sz (Some arr) m = Inr h \<and>
         constructor sz (Some arr) m
           = sink_each \<lparr>storage = arr, size_of = int (length arr) - 1,
                         count_of = int (length arr) - 1, mem = m\<rparr>
               (rev [1..(int (length arr) - 1) div 2]) \<and>
         size_of h = int (length arr) - 1 \<and> count_of h = size_of h \<and> mem h = m \<and>
         length (storage h) = length arr \<and> hd (storage h) = hd arr \<and>
         mset (tl (storage h)) = mset (tl arr) \<and> heap_inv h \<and>
         (\<forall>s\<in>set (tl arr). js_ge (key h 1) (prio_of m s)))) \<and>
   map_sum fst (\<lambda>h. key h 1)
     (constructor None (Some [Null, Obj 5, Obj 1, Obj 9, Obj 3]) ex_mem) = Inr (Some 9)"
proof (intro conjI impI)
  assume ok: "array_ok m arr"
  let ?n = "int (length arr) - 1"
  from new_fromArray_ok[OF ok] obtain h where
    b: "new_fromArray m arr = Inr h" and fr: "mem h = m" "size_of h = ?n" "count_of h = ?n"
      "length (storage h) = length arr" "js_get (storage h) 0 = js_get arr 0"
      "mset (tl (storage h)) = mset (tl arr)" and
    inv: "layout h" "numeric h" "heap_inv h"
    by blast
  have ne: "arr \<noteq> []" "storage h \<noteq> []" using ok fr by (auto simp: array_ok_def)
  have c: "constructor sz (Some arr) m = Inr h" using b by (simp add: constructor_def)
  have e: "constructor sz (Some arr) m
           = sink_each \<lparr>storage = arr, size_of = ?n, count_of = ?n, mem = m\<rparr> (rev [1..?n div 2])"
    by (simp add: constructor_def new_fromArray_def buildheap_def Let_def
        buildheap_loop_sink_each)
  have hd: "hd (storage h) = hd arr" using fr(5) ne by (simp add: js_get_0)
  have ph: "pheap h 1 (count_of h)" using inv(3) by (simp add: heap_inv_pheap)
  have mx: "js_ge (key h 1) (prio_of m s)" if "s \<in> set (tl arr)" for s
  proof -
    have "s \<in> set (tl (storage h))" using that fr(6) by (metis set_mset_mset)
    then have "s \<in> set (slots h (size_of h))" using layout_slots[OF inv(1)] by simp
    then obtain j where j: "1 \<le> j" "j \<le> ?n" "s = js_get (storage h) j"
      using fr(2) by (auto simp: set_slots)
    then have root: "key h 1 \<noteq> None" using inv(2) fr(3) by (auto simp: numeric_def)
    have "js_ge (key h 1) (key h j)" using root_max[OF ph root j(1)] j(2) fr(3) by simp
    then show ?thesis using j(3) fr(1) by (simp add: key_def)
  qed
  from c e fr hd inv(3) mx
  show "\<exists>h. constructor sz (Some arr) m = Inr h \<and>
         constructor sz (Some arr) m
           = sink_each \<lparr>storage = arr, size_of = ?n, count_of = ?n, mem = m\<rparr>
               (rev [1..?n div 2]) \<and>
         size_of h = ?n \<and> count_of h = size_of h \<and> mem h = m \<and>
         length (storage h) = length arr \<and> hd (storage h) = hd arr \<and>
         mset (tl (storage h)) = mset (tl arr) \<and> heap_inv h \<and>
         (\<forall>s\<in>set (tl arr). js_ge (key h 1) (prio_of m s))"
    by auto
next
  show "map_sum fst (\<lambda>h. key h 1)
     (constructor None (Some [Null, Obj 5, Obj 1, Obj 9, Obj 3]) ex_mem) = Inr (Some 9)"
    by code_simp
qed

theorem fromArray_builds_heap_witness:
  "array_ok ex_mem [Null, Obj 5, Obj 1, Obj 9, Obj 3] \<and>
   (\<exists>h. constructor None (Some [Null, Obj 5, Obj 1, Obj 9, Obj 3]) ex_mem = Inr h \<and>
      size_of h = 4 \<and> count_of h = 4 \<and> heap_inv h \<and>
      (\<forall>s\<in>set [Obj 5, Obj 1, Obj 9, Obj 3]. js_ge (key h 1) (prio_of ex_mem s)))"
proof -
  have a: "array_ok ex_mem [Null, Obj 5, Obj 1, Obj 9, Obj 3]" by code_simp
  from fromArray_builds_heap[of ex_mem "[Null, Obj 5, Obj 1, Obj 9, Obj 3]" None] a
  show ?thesis by auto
qed

text \<open>
  C9 as the specification states it: with both children live and of equal priority,
  the right child is the swap target whenever its priority is not less than that of the
  currently tracked maximum. In \<open>tie_heap\<close> the children of index 1 are live and both
  have priority 5; after the comparison with the left child the tracked maximum is the
  left child, the right child's priority is not less than it, and still the left child
  is the target: \<open>sink(1)\<close> moves the record of index 2 to the root.
\<close>

theorem sink_tie_counterexample:
  "inCountBounds tie_heap (left 1) \<and> inCountBounds tie_heap (right 1) \<and>
   key tie_heap (left 1) = key tie_heap (right 1) \<and>
   map_sum fst id (sink_pick tie_heap 1 (left 1)) = Inr (left 1) \<and>
   \<not> js_less (key tie_heap (right 1)) (key tie_heap (left 1)) \<and>
   map_sum fst id (sink_max tie_heap 1) \<noteq> Inr (right 1) \<and>
   map_sum fst id (sink_max tie_heap 1) = Inr (left 1) \<and>
   map_sum fst storage (sink tie_heap 1) = Inr [Null, Obj 2, Obj 1, Obj 3]"
  by code_simp

text \<open>
  C9 as the code has it: with both children live, the right child is the swap target
  exactly when its priority is strictly greater than that of the tracked maximum (the
  current record, or the left child if that one is strictly greater). So when the two
  children have equal priority the right child is never the target: it is the left
  child if the current record's priority is less than theirs, and nothing is swapped
  otherwise.
\<close>

theorem sink_tie_prefers_left:
  assumes "objs_upto h (count_of h)" "1 \<le> i" "right i \<le> count_of h"
  shows "\<exists>m1. sink_pick h i (left i) = Inr m1 \<and>
           (sink_max h i = Inr (right i) \<longleftrightarrow> js_less (key h m1) (key h (right i))) \<and>
           (key h (left i) = key h (right i) \<longrightarrow>
              sink_max h i = Inr (if js_less (key h i) (key h (left i)) then left i else i))"
proof -
  let ?n = "count_of h" let ?l = "left i" let ?r = "right i"
  have lr: "0 < ?l" "?l \<le> ?n" "0 < ?r" "i \<le> ?n" "i < ?r" "?l < ?r"
    using assms(2,3) by (auto simp: left_def right_def)
  define m1 where "m1 = (if js_less (key h i) (key h ?l) then ?l else i)"
  have "i \<le> ?n \<or> ?l \<le> 0 \<or> ?n < ?l" using lr by simp
  from sink_pick_live[OF assms(1,2) this] have p1: "sink_pick h i ?l = Inr m1"
    using lr by (simp add: m1_def)
  have m1: "1 \<le> m1" "m1 \<le> ?n" "m1 \<noteq> ?r" using assms(2) lr by (auto simp: m1_def)
  then have "m1 \<le> ?n \<or> ?r \<le> 0 \<or> ?n < ?r" by simp
  from sink_pick_live[OF assms(1) m1(1) this]
  have p2: "sink_pick h m1 ?r = Inr (if js_less (key h m1) (key h ?r) then ?r else m1)"
    using lr assms(3) by simp
  have sm: "sink_max h i = Inr (if js_less (key h m1) (key h ?r) then ?r else m1)"
    by (simp add: sink_max_def p1 p2)
  have a: "sink_max h i = Inr ?r \<longleftrightarrow> js_less (key h m1) (key h ?r)"
    using sm m1(3) by auto
  have b: "sink_max h i = Inr (if js_less (key h i) (key h ?l) then ?l else i)"
    if "key h ?l = key h ?r"
  proof -
    have "\<not> js_less (key h m1) (key h ?r)"
      using that js_less_asym[of "key h ?l" "key h ?l"] by (auto simp: m1_def)
    then show ?thesis using sm by (simp add: m1_def)
  qed
  from p1 a b show ?thesis by blast
qed

theorem sink_tie_prefers_left_witness:
  "objs_upto tie_heap (count_of tie_heap) \<and> (1::int) \<le> 1 \<and> right 1 \<le> count_of tie_heap \<and>
   key tie_heap (left 1) = key tie_heap (right 1) \<and>
   sink_max tie_heap 1 = Inr (left 1)"
proof -
  have a: "objs_upto tie_heap (count_of tie_heap)" by code_simp
  have b: "right 1 \<le> count_of tie_heap" by code_simp
  have c: "key tie_heap (left 1) = key tie_heap (right 1)" by code_simp
  have d: "js_less (key tie_heap 1) (key tie_heap (left 1))" by code_simp
  from sink_tie_prefers_left[OF a _ b] c d have "sink_max tie_heap 1 = Inr (left 1)" by auto
  with a b c show ?thesis by simp
qed

text \<open>
  C10. On a heap of the shape the constructors produce, every public call (\<open>insert\<close>,
  \<open>removeMax\<close>, \<open>count\<close>, \<open>sort\<close>), whether it returns or throws, leaves the storage
  array at its length \<open>size + 1\<close> and leaves \<open>size\<close> alone; the array holds the
  references it held, possibly in other slots; and the heap still has that shape, so the
  same holds after any further call.
\<close>

theorem storage_length_fixed:
  assumes "layout h"
  shows "length (storage (call_op h c)) = length (storage h) \<and>
         int (length (storage (call_op h c))) = size_of h + 1 \<and>
         size_of (call_op h c) = size_of h \<and>
         mset (storage (call_op h c)) = mset (storage h) \<and>
         layout (call_op h c)"
proof -
  let ?h' = "call_op h c"
  from call_op_layout[OF assms, of c] have
    lay: "layout ?h'" and sz: "size_of ?h' = size_of h" and
    len: "length (storage ?h') = length (storage h)" and
    z: "js_get (storage ?h') 0 = js_get (storage h) 0" and
    ms: "mset (slots ?h' (size_of h)) = mset (slots h (size_of h))"
    by simp_all
  have l: "int (length (storage h)) = size_of h + 1" "storage h \<noteq> []"
    using assms by (auto simp: layout_def)
  have ne: "storage ?h' \<noteq> []" using l(2) len by auto
  have "mset (tl (storage ?h')) = mset (tl (storage h))"
    using ms layout_slots[OF assms] layout_slots[OF lay] sz by simp
  moreover have "hd (storage ?h') = hd (storage h)" using z l(2) ne by (simp add: js_get_0)
  ultimately have "mset (hd (storage ?h') # tl (storage ?h')) = mset (hd (storage h) # tl (storage h))"
    by simp
  then have "mset (storage ?h') = mset (storage h)" using l(2) ne by simp
  with lay sz len l(1) show ?thesis by simp
qed

theorem storage_length_fixed_witness:
  "layout (new_empty 2 :: nat MaxHeap) \<and>
   length (storage (call_op (new_empty 2 :: nat MaxHeap) (Insert 7 (Some 1)))) = 3 \<and>
   length (storage (call_op (call_op (new_empty 2 :: nat MaxHeap) (Insert 7 (Some 1))) RemoveMax)) = 3"
proof -
  let ?h = "new_empty 2 :: nat MaxHeap"
  have a: "layout ?h" by code_simp
  have n: "length (storage ?h) = 3" by code_simp
  note s1 = storage_length_fixed[OF a, of "Insert 7 (Some 1)"]
  then have b: "layout (call_op ?h (Insert 7 (Some 1)))" by simp
  note s2 = storage_length_fixed[OF b, of RemoveMax]
  from a s1 s2 n show ?thesis by simp
qed

end
